theory Spec2Isabelle
  imports Main "HOL-Library.Word" "HOL-Library.Finite_Map"
begin

section \<open>The doubly linked list of \<open>yrgo::container::List\<close>\<close>

text \<open>
  The class template \<open>List<T>\<close> keeps its elements in heap-allocated nodes that are linked
  in both directions. The embedding passes the heap explicitly: a finite map from node
  addresses to nodes. The list object itself (the three members \<open>first_\<close>, \<open>last_\<close> and
  \<open>size_\<close>) is a record that is passed next to the heap, so that several lists can live in
  one heap.

  The target is the ATmega328P, where a data pointer and \<open>size_t\<close> are 16 bits wide: both
  are \<open>16 word\<close>, and the null pointer is the word 0.

  Isabelle does not accept a name that ends with an underscore, so the members \<open>first_\<close>,
  \<open>last_\<close>, \<open>size_\<close> and \<open>node_\<close> are written \<open>first'\<close>, \<open>last'\<close>, \<open>size'\<close> and \<open>node'\<close>;
  \<open>begin\<close>, \<open>end\<close> and \<open>last\<close> are \<open>List_begin\<close>, \<open>List_end\<close> and \<open>List_last\<close>; the operators
  of the iterator are spelled out (\<open>Iterator_inc\<close> for \<open>++\<close>, \<open>Iterator_add\<close> for \<open>+=\<close>, ...).
\<close>

subsection \<open>Nodes, heap, list object, iterator\<close>

type_synonym addr = "16 word"

abbreviation nullptr :: addr where
  "nullptr \<equiv> 0"

record 'a Node =
  previous :: addr
  "next" :: addr
  data :: 'a

type_synonym 'a heap = "(addr, 'a Node) fmap"

record List =
  first' :: addr
  last' :: addr
  size' :: "16 word"

record Iterator =
  node' :: addr

text \<open>
  What C++ leaves undefined is an error value of the model: reading or writing through the
  null pointer, and using a pointer that references no live node (a freed node, or memory
  that was never allocated).
\<close>

datatype error = NullDereference | InvalidPointer

definition deref :: "'a heap \<Rightarrow> addr \<Rightarrow> error + 'a Node" where
  "deref h p =
     (if p = nullptr then Inl NullDereference
      else case fmlookup h p of None \<Rightarrow> Inl InvalidPointer | Some n \<Rightarrow> Inr n)"

text \<open>The assignments \<open>p->next = q\<close> and \<open>p->previous = q\<close>.\<close>

definition set_next :: "addr \<Rightarrow> addr \<Rightarrow> 'a heap \<Rightarrow> error + 'a heap" where
  "set_next p q h =
     (case deref h p of Inl e \<Rightarrow> Inl e | Inr n \<Rightarrow> Inr (fmupd p (n\<lparr>next := q\<rparr>) h))"

definition set_previous :: "addr \<Rightarrow> addr \<Rightarrow> 'a heap \<Rightarrow> error + 'a heap" where
  "set_previous p q h =
     (case deref h p of Inl e \<Rightarrow> Inl e | Inr n \<Rightarrow> Inr (fmupd p (n\<lparr>previous := q\<rparr>) h))"

subsection \<open>Allocation\<close>

text \<open>
  \<open>detail::New\<close> is \<open>malloc\<close>: it returns the null pointer, or the address of a block that
  is disjoint from every live block. Which of the two, and which address, is the
  allocator's choice: the parameter \<open>alloc\<close>, a function of the live nodes. A choice that
  is a live node is no block \<open>malloc\<close> may hand out and counts as no memory.
  \<open>detail::Delete\<close> is \<open>free\<close>: nothing happens for the null pointer, and freeing what is
  not live is undefined.
\<close>

type_synonym 'a allocator = "'a heap \<Rightarrow> addr"

definition detail_New :: "'a allocator \<Rightarrow> 'a heap \<Rightarrow> addr" where
  "detail_New alloc h =
     (let block = alloc h
      in case fmlookup h block of None \<Rightarrow> block | Some n \<Rightarrow> nullptr)"

definition detail_Delete :: "addr \<Rightarrow> 'a heap \<Rightarrow> error + 'a heap" where
  "detail_Delete block h =
     (if block = nullptr then Inr h
      else case fmlookup h block of
             None \<Rightarrow> Inl InvalidPointer
           | Some n \<Rightarrow> Inr (fmdrop block h))"

definition Node_New :: "'a allocator \<Rightarrow> 'a \<Rightarrow> 'a heap \<Rightarrow> addr \<times> 'a heap" where
  "Node_New alloc d h =
     (let self = detail_New alloc h
      in if self = nullptr then (nullptr, h)
         else (self, fmupd self \<lparr>previous = nullptr, next = nullptr, data = d\<rparr> h))"

definition Node_Delete :: "addr \<Rightarrow> 'a heap \<Rightarrow> error + 'a heap" where
  "Node_Delete self h = detail_Delete self h"

subsection \<open>Iterators\<close>

definition Address :: "Iterator \<Rightarrow> addr" where
  "Address i = node' i"

definition Node_Get :: "Iterator \<Rightarrow> addr" where
  "Node_Get i = Address i"

definition List_begin :: "List \<Rightarrow> Iterator" where
  "List_begin l = \<lparr>node' = first' l\<rparr>"

definition List_end :: "Iterator" where
  "List_end = \<lparr>node' = nullptr\<rparr>"

definition List_last :: "List \<Rightarrow> Iterator" where
  "List_last l = \<lparr>node' = last' l\<rparr>"

definition Iterator_eq :: "Iterator \<Rightarrow> Iterator \<Rightarrow> bool" where
  "Iterator_eq i other = (if node' i = node' other then True else False)"

definition Iterator_neq :: "Iterator \<Rightarrow> Iterator \<Rightarrow> bool" where
  "Iterator_neq i other = (if node' i \<noteq> node' other then True else False)"

definition Iterator_inc :: "'a heap \<Rightarrow> Iterator \<Rightarrow> error + Iterator" where
  "Iterator_inc h i =
     (case deref h (node' i) of Inl e \<Rightarrow> Inl e | Inr n \<Rightarrow> Inr (i\<lparr>node' := next n\<rparr>))"

definition Iterator_dec :: "'a heap \<Rightarrow> Iterator \<Rightarrow> error + Iterator" where
  "Iterator_dec h i =
     (case deref h (node' i) of Inl e \<Rightarrow> Inl e | Inr n \<Rightarrow> Inr (i\<lparr>node' := previous n\<rparr>))"

text \<open>The counting loops of \<open>+=\<close> and \<open>-=\<close> run \<open>num_increments\<close> times.\<close>

fun advance :: "'a heap \<Rightarrow> nat \<Rightarrow> Iterator \<Rightarrow> error + Iterator" where
  "advance h 0 i = Inr i"
| "advance h (Suc k) i =
     (case Iterator_inc h i of Inl e \<Rightarrow> Inl e | Inr i' \<Rightarrow> advance h k i')"

fun retreat :: "'a heap \<Rightarrow> nat \<Rightarrow> Iterator \<Rightarrow> error + Iterator" where
  "retreat h 0 i = Inr i"
| "retreat h (Suc k) i =
     (case Iterator_dec h i of Inl e \<Rightarrow> Inl e | Inr i' \<Rightarrow> retreat h k i')"

definition Iterator_add :: "'a heap \<Rightarrow> 16 word \<Rightarrow> Iterator \<Rightarrow> error + Iterator" where
  "Iterator_add h num_increments i = advance h (unat num_increments) i"

definition Iterator_sub :: "'a heap \<Rightarrow> 16 word \<Rightarrow> Iterator \<Rightarrow> error + Iterator" where
  "Iterator_sub h num_increments i = retreat h (unat num_increments) i"

definition Iterator_deref :: "'a heap \<Rightarrow> Iterator \<Rightarrow> error + 'a" where
  "Iterator_deref h i =
     (case deref h (node' i) of Inl e \<Rightarrow> Inl e | Inr n \<Rightarrow> Inr (data n))"

subsection \<open>The operations of the list\<close>

definition Size :: "List \<Rightarrow> 16 word" where
  "Size l = size' l"

definition Empty :: "List \<Rightarrow> bool" where
  "Empty l = (if size' l = 0 then True else False)"

definition empty_List :: "List" where
  "empty_List = \<lparr>first' = nullptr, last' = nullptr, size' = 0\<rparr>"

text \<open>
  \<open>RemoveAllNodes\<close> walks from \<open>begin()\<close> and frees every node it visits. Each round takes
  one node out of the heap, and touching a node that is gone is an error, so the loop ends
  on every heap.
\<close>

function RemoveAllNodes_loop :: "Iterator \<Rightarrow> 'a heap \<Rightarrow> error + 'a heap" where
  "RemoveAllNodes_loop i h =
     (if Iterator_neq i List_end then
        (case deref h (Node_Get i) of
           Inl e \<Rightarrow> Inl e
         | Inr n \<Rightarrow>
             (case Node_Delete (Node_Get i) h of
                Inl e \<Rightarrow> Inl e
              | Inr h' \<Rightarrow> RemoveAllNodes_loop \<lparr>node' = next n\<rparr> h'))
      else Inr h)"
  by pat_completeness auto
termination
proof (relation "measure (\<lambda>(i, h). card (fmdom' h))")
  show "wf (measure (\<lambda>(i, h). card (fmdom' h)))" by simp
next
  fix i :: Iterator and h h' :: "'a heap" and n :: "'a Node"
  assume neq: "Iterator_neq i List_end" and del: "Node_Delete (Node_Get i) h = Inr h'"
  define p where "p = Node_Get i"
  from neq have "p \<noteq> nullptr"
    by (simp add: p_def Iterator_neq_def List_end_def Node_Get_def Address_def split: if_splits)
  with del have mem: "p \<in> fmdom' h" and h': "h' = fmdrop p h"
    unfolding p_def [symmetric] Node_Delete_def detail_Delete_def
    by (simp_all add: fmlookup_dom'_iff split: option.splits)
  have "card (fmdom' h - {p}) < card (fmdom' h)"
    using mem by (intro card_Diff1_less) simp_all
  then show "((\<lparr>node' = next n\<rparr>, h'), (i, h)) \<in> measure (\<lambda>(i, h). card (fmdom' h))"
    using h' by simp
qed

definition RemoveAllNodes :: "'a heap \<times> List \<Rightarrow> error + 'a heap" where
  "RemoveAllNodes s = (case s of (h, l) \<Rightarrow> RemoveAllNodes_loop (List_begin l) h)"

definition Clear :: "'a heap \<times> List \<Rightarrow> error + 'a heap \<times> List" where
  "Clear s =
     (case s of (h, l) \<Rightarrow>
        (case RemoveAllNodes (h, l) of
           Inl e \<Rightarrow> Inl e
         | Inr h' \<Rightarrow> Inr (h', l\<lparr>first' := nullptr, last' := nullptr, size' := 0\<rparr>)))"

definition PushFront :: "'a allocator \<Rightarrow> 'a \<Rightarrow> 'a heap \<times> List \<Rightarrow> error + bool \<times> 'a heap \<times> List" where
  "PushFront alloc v s =
     (case s of (h, l) \<Rightarrow>
        (case Node_New alloc v h of (node1, h1) \<Rightarrow>
           if node1 = nullptr then Inr (False, h, l)
           else if size' l = 0
             then Inr (True, h1, l\<lparr>first' := node1, last' := node1, size' := size' l + 1\<rparr>)
           else
             (let node2 = first' l
              in case set_next node1 node2 h1 of
                   Inl e \<Rightarrow> Inl e
                 | Inr h2 \<Rightarrow>
                     (case set_previous node2 node1 h2 of
                        Inl e \<Rightarrow> Inl e
                      | Inr h3 \<Rightarrow> Inr (True, h3, l\<lparr>first' := node1, size' := size' l + 1\<rparr>)))))"

definition PushBack :: "'a allocator \<Rightarrow> 'a \<Rightarrow> 'a heap \<times> List \<Rightarrow> error + bool \<times> 'a heap \<times> List" where
  "PushBack alloc v s =
     (case s of (h, l) \<Rightarrow>
        (case Node_New alloc v h of (node2, h1) \<Rightarrow>
           if node2 = nullptr then Inr (False, h, l)
           else if size' l = 0
             then Inr (True, h1, l\<lparr>first' := node2, last' := node2, size' := size' l + 1\<rparr>)
           else
             (let node1 = last' l
              in case set_next node1 node2 h1 of
                   Inl e \<Rightarrow> Inl e
                 | Inr h2 \<Rightarrow>
                     (case set_previous node2 node1 h2 of
                        Inl e \<Rightarrow> Inl e
                      | Inr h3 \<Rightarrow> Inr (True, h3, l\<lparr>last' := node2, size' := size' l + 1\<rparr>)))))"

text \<open>
  \<open>Insert\<close> reads the predecessor of the position and then the successor of that
  predecessor; the members \<open>first_\<close> and \<open>last_\<close> are not written.
\<close>

definition Insert :: "'a allocator \<Rightarrow> Iterator \<Rightarrow> 'a \<Rightarrow> 'a heap \<times> List \<Rightarrow> error + bool \<times> 'a heap \<times> List" where
  "Insert alloc iterator v s =
     (case s of (h, l) \<Rightarrow>
        if Iterator_eq iterator \<lparr>node' = nullptr\<rparr> then Inr (False, h, l)
        else
          (case Node_New alloc v h of (node2, h1) \<Rightarrow>
             if node2 = nullptr then Inr (False, h, l)
             else
               (case deref h1 (Node_Get iterator) of
                  Inl e \<Rightarrow> Inl e
                | Inr n \<Rightarrow>
                    (let node1 = previous n
                     in case deref h1 node1 of
                          Inl e \<Rightarrow> Inl e
                        | Inr n1 \<Rightarrow>
                            (let node3 = next n1
                             in case set_next node1 node2 h1 of
                                  Inl e \<Rightarrow> Inl e
                                | Inr h2 \<Rightarrow>
                                    (case set_previous node2 node1 h2 of
                                       Inl e \<Rightarrow> Inl e
                                     | Inr h3 \<Rightarrow>
                                         (case set_next node2 node3 h3 of
                                            Inl e \<Rightarrow> Inl e
                                          | Inr h4 \<Rightarrow>
                                              (case set_previous node3 node2 h4 of
                                                 Inl e \<Rightarrow> Inl e
                                               | Inr h5 \<Rightarrow>
                                                   Inr (True, h5, l\<lparr>size' := size' l + 1\<rparr>)))))))))"

definition PopFront :: "'a heap \<times> List \<Rightarrow> error + 'a heap \<times> List" where
  "PopFront s =
     (case s of (h, l) \<Rightarrow>
        if size' l \<le> 1 then Clear (h, l)
        else
          (let node1 = first' l
           in case deref h node1 of
                Inl e \<Rightarrow> Inl e
              | Inr n \<Rightarrow>
                  (let node2 = next n
                   in case set_previous node2 nullptr h of
                        Inl e \<Rightarrow> Inl e
                      | Inr h1 \<Rightarrow>
                          (case Node_Delete node1 h1 of
                             Inl e \<Rightarrow> Inl e
                           | Inr h2 \<Rightarrow> Inr (h2, l\<lparr>first' := node2, size' := size' l - 1\<rparr>)))))"

definition PopBack :: "'a heap \<times> List \<Rightarrow> error + 'a heap \<times> List" where
  "PopBack s =
     (case s of (h, l) \<Rightarrow>
        if size' l \<le> 1 then Clear (h, l)
        else
          (let node2 = last' l
           in case deref h node2 of
                Inl e \<Rightarrow> Inl e
              | Inr n \<Rightarrow>
                  (let node1 = previous n
                   in case set_next node1 nullptr h of
                        Inl e \<Rightarrow> Inl e
                      | Inr h1 \<Rightarrow>
                          (case Node_Delete node2 h1 of
                             Inl e \<Rightarrow> Inl e
                           | Inr h2 \<Rightarrow> Inr (h2, l\<lparr>last' := node1, size' := size' l - 1\<rparr>)))))"

text \<open>
  \<open>Remove\<close> calls \<open>iterator.This()\<close>, which the iterator class does not declare; its result
  is used as the node the iterator points at, which is what \<open>Node::Get\<close> returns.
\<close>

definition Remove :: "Iterator \<Rightarrow> 'a heap \<times> List \<Rightarrow> error + bool \<times> 'a heap \<times> List" where
  "Remove iterator s =
     (case s of (h, l) \<Rightarrow>
        if Iterator_eq iterator \<lparr>node' = nullptr\<rparr> then Inr (False, h, l)
        else
          (let node2 = Node_Get iterator
           in case deref h node2 of
                Inl e \<Rightarrow> Inl e
              | Inr n \<Rightarrow>
                  (let node1 = previous n; node3 = next n
                   in case set_next node1 node3 h of
                        Inl e \<Rightarrow> Inl e
                      | Inr h1 \<Rightarrow>
                          (case set_previous node3 node1 h1 of
                             Inl e \<Rightarrow> Inl e
                           | Inr h2 \<Rightarrow>
                               (case Node_Delete node2 h2 of
                                  Inl e \<Rightarrow> Inl e
                                | Inr h3 \<Rightarrow> Inr (True, h3, l\<lparr>size' := size' l - 1\<rparr>))))))"

text \<open>
  \<open>Resize\<close> is two loops. The first pushes at the back while the list is too short and
  gives up at the first push that fails; the second pops at the front while the list is
  too long.
\<close>

function Resize_grow :: "'a allocator \<Rightarrow> 16 word \<Rightarrow> 'a \<Rightarrow> 'a heap \<times> List \<Rightarrow> error + bool \<times> 'a heap \<times> List" where
  "Resize_grow alloc new_size start_value (h, l) =
     (if size' l < new_size then
        (case PushBack alloc start_value (h, l) of
           Inl e \<Rightarrow> Inl e
         | Inr (ok, s') \<Rightarrow>
             if \<not> ok then Inr (False, s')
             else Resize_grow alloc new_size start_value s')
      else Inr (True, h, l))"
  by pat_completeness auto
termination
proof (relation "measure (\<lambda>(alloc, new_size, v, h, l). unat new_size - unat (size' l))")
  show "wf (measure (\<lambda>(alloc, new_size, v, h, l). unat new_size - unat (size' l)))" by simp
next
  fix alloc :: "'a allocator" and new_size :: "16 word" and start_value :: 'a
    and h :: "'a heap" and l :: List and x :: "bool \<times> 'a heap \<times> List"
    and ok :: bool and s' :: "'a heap \<times> List"
  assume less: "size' l < new_size"
    and push: "PushBack alloc start_value (h, l) = Inr x" "(ok, s') = x" "\<not> \<not> ok"
  from push have "size' (snd s') = size' l + 1"
    by (auto simp: PushBack_def Let_def split: prod.splits if_splits sum.splits)
  moreover from less have lt: "unat (size' l) < unat new_size"
    by (simp add: word_less_nat_alt)
  moreover have "unat new_size < 2 ^ 16"
    using unsigned_less [of new_size, where ?'a = nat] by simp
  with lt have "unat (size' l + 1) = Suc (unat (size' l))"
    by (simp add: unat_word_ariths)
  ultimately show "((alloc, new_size, start_value, s'), (alloc, new_size, start_value, h, l))
      \<in> measure (\<lambda>(alloc, new_size, v, h, l). unat new_size - unat (size' l))"
    by (cases s') simp
qed

function Resize_shrink :: "16 word \<Rightarrow> 'a heap \<times> List \<Rightarrow> error + 'a heap \<times> List" where
  "Resize_shrink new_size (h, l) =
     (if size' l > new_size then
        (case PopFront (h, l) of
           Inl e \<Rightarrow> Inl e
         | Inr s' \<Rightarrow> Resize_shrink new_size s')
      else Inr (h, l))"
  by pat_completeness auto
termination
proof (relation "measure (\<lambda>(new_size, h, l). unat (size' l))")
  show "wf (measure (\<lambda>(new_size, h, l). unat (size' l)))" by simp
next
  fix new_size :: "16 word" and h :: "'a heap" and l :: List and s' :: "'a heap \<times> List"
  assume less: "new_size < size' l" and pop: "PopFront (h, l) = Inr s'"
  from less have pos: "size' l \<noteq> 0"
    by (auto simp: word_less_nat_alt)
  from pop have "size' (snd s') = 0 \<or> size' (snd s') = size' l - 1"
    by (auto simp: PopFront_def Clear_def Let_def split: if_splits sum.splits)
  moreover from pos have "0 < unat (size' l)"
    by (simp add: unat_gt_0)
  moreover from pos have "unat (size' l - 1) < unat (size' l)"
    by (simp add: unat_minus_one unat_gt_0)
  ultimately show "((new_size, s'), (new_size, h, l)) \<in> measure (\<lambda>(new_size, h, l). unat (size' l))"
    by (cases s') auto
qed

definition Resize :: "'a allocator \<Rightarrow> 16 word \<Rightarrow> 'a \<Rightarrow> 'a heap \<times> List \<Rightarrow> error + bool \<times> 'a heap \<times> List" where
  "Resize alloc new_size start_value s =
     (case Resize_grow alloc new_size start_value s of
        Inl e \<Rightarrow> Inl e
      | Inr (ok, s') \<Rightarrow>
          if \<not> ok then Inr (False, s')
          else (case Resize_shrink new_size s' of
                  Inl e \<Rightarrow> Inl e
                | Inr s'' \<Rightarrow> Inr (True, s'')))"

subsection \<open>Walking a list\<close>

text \<open>
  A caller reads a list with the loop
  \<^verbatim>\<open>for (auto i{list.begin()}; i != list.end(); ++i) { ... *i ... }\<close>.
  Nothing in the loop bounds the number of rounds: on a heap whose \<open>next\<close> links form a
  cycle it runs forever, which is the value \<open>None\<close>.
\<close>

partial_function (option) iterate :: "'a heap \<Rightarrow> Iterator \<Rightarrow> (error + 'a list) option" where
  "iterate h i =
     (if Iterator_neq i List_end then
        (case Iterator_deref h i of
           Inl e \<Rightarrow> Some (Inl e)
         | Inr v \<Rightarrow>
             (case Iterator_inc h i of
                Inl e \<Rightarrow> Some (Inl e)
              | Inr i' \<Rightarrow>
                  Option.bind (iterate h i')
                    (\<lambda>r. Some (case r of Inl e \<Rightarrow> Inl e | Inr vs \<Rightarrow> Inr (v # vs)))))
      else Some (Inr []))"

text \<open>A caller's sequence of \<open>PushBack\<close> calls; each call meets its own allocator state.\<close>

fun PushBack_seq :: "('a allocator \<times> 'a) list \<Rightarrow> 'a heap \<times> List \<Rightarrow> error + bool list \<times> 'a heap \<times> List" where
  "PushBack_seq [] s = Inr ([], s)"
| "PushBack_seq (c # cs) s =
     (case PushBack (fst c) (snd c) s of
        Inl e \<Rightarrow> Inl e
      | Inr (ok, s') \<Rightarrow>
          (case PushBack_seq cs s' of
             Inl e \<Rightarrow> Inl e
           | Inr (oks, s'') \<Rightarrow> Inr (ok # oks, s'')))"

text \<open>
  Two allocators for the examples: one that hands out the first free address of a fixed
  pool, and one that has no memory left.
\<close>

definition pool_alloc :: "addr list \<Rightarrow> 'a allocator" where
  "pool_alloc pool h =
     (case find (\<lambda>a. fmlookup h a = None) pool of None \<Rightarrow> nullptr | Some a \<Rightarrow> a)"

definition no_memory :: "'a allocator" where
  "no_memory h = nullptr"

subsection \<open>The invariant\<close>

text \<open>
  \<open>path f h p as q\<close>: starting at \<open>p\<close> and following the link \<open>f\<close>, the live nodes \<open>as\<close>
  are visited in this order, and the link of the last one is \<open>q\<close>.
\<close>

fun path :: "('a Node \<Rightarrow> addr) \<Rightarrow> 'a heap \<Rightarrow> addr \<Rightarrow> addr list \<Rightarrow> addr \<Rightarrow> bool" where
  "path f h p [] q = (p = q)"
| "path f h p (a # as) q =
     (p = a \<and> a \<noteq> nullptr \<and>
      (case fmlookup h a of None \<Rightarrow> False | Some n \<Rightarrow> path f h (f n) as q))"

text \<open>
  \<open>dll h l as\<close>: the list object \<open>l\<close> owns exactly the nodes \<open>as\<close>, front to back. The
  \<open>next\<close> links lead from \<open>first_\<close> through \<open>as\<close> to the null pointer, the \<open>previous\<close>
  links lead from \<open>last_\<close> through the same nodes in reverse, and \<open>size_\<close> counts them.
\<close>

definition dll :: "'a heap \<Rightarrow> List \<Rightarrow> addr list \<Rightarrow> bool" where
  "dll h l as =
     (distinct as \<and>
      path next h (first' l) as nullptr \<and>
      path previous h (last' l) (rev as) nullptr \<and>
      unat (size' l) = length as)"

text \<open>The nodes of a list are found by following \<open>next\<close> from \<open>first_\<close>, \<open>size_\<close> times.\<close>

fun collect :: "'a heap \<Rightarrow> nat \<Rightarrow> addr \<Rightarrow> addr list" where
  "collect h 0 p = []"
| "collect h (Suc k) p =
     (if p = nullptr then []
      else case fmlookup h p of None \<Rightarrow> [] | Some n \<Rightarrow> p # collect h k (next n))"

definition nodes :: "'a heap \<times> List \<Rightarrow> addr list" where
  "nodes s = (case s of (h, l) \<Rightarrow> collect h (unat (size' l)) (first' l))"

definition list_inv :: "'a heap \<times> List \<Rightarrow> bool" where
  "list_inv s = (case s of (h, l) \<Rightarrow> dll h l (nodes (h, l)))"

text \<open>The values that the nodes of a list hold, front to back.\<close>

definition vals :: "'a heap \<Rightarrow> addr list \<Rightarrow> 'a list" where
  "vals h as = concat (map (\<lambda>a. case fmlookup h a of None \<Rightarrow> [] | Some n \<Rightarrow> [data n]) as)"

definition elements :: "'a heap \<times> List \<Rightarrow> 'a list" where
  "elements s = (case s of (h, l) \<Rightarrow>
     concat (map (\<lambda>a. case fmlookup h a of None \<Rightarrow> [] | Some n \<Rightarrow> [data n]) (nodes (h, l))))"

text \<open>
  The invariant in the words of the specification: the size is 0 exactly when both
  \<open>first_\<close> and \<open>last_\<close> are null; from size 1 on, the first node has no predecessor, the
  last node has no successor, \<open>size_ - 1\<close> steps along \<open>next\<close> lead from the first node to
  the last one, and \<open>size_ - 1\<close> steps along \<open>previous\<close> lead back.
\<close>

definition List_invariant :: "'a heap \<times> List \<Rightarrow> bool" where
  "List_invariant s = (case s of (h, l) \<Rightarrow>
     ((size' l = 0) = (first' l = nullptr \<and> last' l = nullptr)) \<and>
     (1 \<le> size' l \<longrightarrow>
        (case deref h (first' l) of Inl e \<Rightarrow> False | Inr n \<Rightarrow> previous n = nullptr) \<and>
        (case deref h (last' l) of Inl e \<Rightarrow> False | Inr n \<Rightarrow> next n = nullptr) \<and>
        Iterator_add h (size' l - 1) (List_begin l) = Inr (List_last l) \<and>
        Iterator_sub h (size' l - 1) (List_last l) = Inr (List_begin l)))"

subsection \<open>Copying a list\<close>





subsection \<open>A caller's mutations\<close>






text \<open>
  \<open>frame h as h' as'\<close>: an operation that took a list with the nodes \<open>as\<close> from heap \<open>h\<close> to
  heap \<open>h'\<close> and nodes \<open>as'\<close> left every other live node as it was, and every node it
  added was not live before.
\<close>

definition frame :: "'a heap \<Rightarrow> addr list \<Rightarrow> 'a heap \<Rightarrow> addr list \<Rightarrow> bool" where
  "frame h as h' as' =
     ((\<forall>x. x \<notin> set as \<longrightarrow> fmlookup h x \<noteq> None \<longrightarrow> fmlookup h' x = fmlookup h x) \<and>
      (\<forall>x \<in> set as'. x \<in> set as \<or> fmlookup h x = None))"

subsection \<open>Example lists\<close>

text \<open>
  Two lists built by the code itself from the empty list over an empty heap: the list that
  holds 1, 2, 3 and the list that holds 7.
\<close>

definition list_123 :: "int heap \<times> List" where
  "list_123 =
     (case PushBack_seq [(pool_alloc [1, 2, 3], 1), (pool_alloc [1, 2, 3], 2), (pool_alloc [1, 2, 3], 3)]
             (fmempty, empty_List) of
        Inl e \<Rightarrow> (fmempty, empty_List)
      | Inr (oks, s) \<Rightarrow> s)"

definition list_7 :: "int heap \<times> List" where
  "list_7 =
     (case PushBack (pool_alloc [1, 2]) 7 (fmempty, empty_List) of
        Inl e \<Rightarrow> (fmempty, empty_List)
      | Inr (ok, s) \<Rightarrow> s)"

text \<open>
  The list that holds 1, 2, 3, 4, 5, and what \<open>Resize\<close> to 2 makes of it.
\<close>

definition list_12345 :: "int heap \<times> List" where
  "list_12345 =
     (case PushBack_seq
             [(pool_alloc [1, 2, 3, 4, 5], 1), (pool_alloc [1, 2, 3, 4, 5], 2),
              (pool_alloc [1, 2, 3, 4, 5], 3), (pool_alloc [1, 2, 3, 4, 5], 4),
              (pool_alloc [1, 2, 3, 4, 5], 5)]
             (fmempty, empty_List) of
        Inl e \<Rightarrow> (fmempty, empty_List)
      | Inr (oks, s) \<Rightarrow> s)"

definition list_45 :: "int heap \<times> List" where
  "list_45 =
     (case Resize no_memory 2 0 list_12345 of
        Inl e \<Rightarrow> (fmempty, empty_List)
      | Inr (ok, s) \<Rightarrow> s)"

section \<open>Properties\<close>

subsection \<open>Paths, words and the invariant\<close>

lemma path_append:
  "path f h p (as @ bs) q = (\<exists>m. path f h p as m \<and> path f h m bs q)"
  by (induction as arbitrary: p) (auto split: option.splits)

lemma path_cong:
  "(\<And>x. x \<in> set as \<Longrightarrow> map_option f (fmlookup h' x) = map_option f (fmlookup h x))
    \<Longrightarrow> path f h' p as q = path f h p as q"
proof (induction as arbitrary: p)
  case Nil
  then show ?case by simp
next
  case (Cons a as)
  have eq: "map_option f (fmlookup h' a) = map_option f (fmlookup h a)"
    by (rule Cons.prems) simp
  have IH: "path f h' r as q = path f h r as q" for r
    by (rule Cons.IH) (simp add: Cons.prems)
  show ?case
  proof (cases "fmlookup h a")
    case None
    with eq have "fmlookup h' a = None" by simp
    with None show ?thesis by simp
  next
    case (Some n)
    with eq obtain n' where "fmlookup h' a = Some n'" and "f n' = f n"
      by (cases "fmlookup h' a") simp_all
    with Some show ?thesis by (simp add: IH)
  qed
qed

lemma path_live:
  "path f h p as q \<Longrightarrow> a \<in> set as \<Longrightarrow> a \<noteq> nullptr \<and> fmlookup h a \<noteq> None"
  by (induction as arbitrary: p) (auto split: option.splits)

lemma path_snoc:
  "path f h p (as @ [a]) q =
     (path f h p as a \<and> a \<noteq> nullptr \<and> (\<exists>n. fmlookup h a = Some n \<and> f n = q))"
  by (auto simp: path_append split: option.splits)

lemma path_hd: "path f h p as q \<Longrightarrow> as \<noteq> [] \<Longrightarrow> p = hd as"
  by (cases as) auto

lemma collect_path:
  "path next h p as nullptr \<Longrightarrow> collect h (length as) p = as"
  by (induction as arbitrary: p) (auto split: option.splits)

lemma dll_nodes: "dll h l as \<Longrightarrow> nodes (h, l) = as"
  by (simp add: dll_def nodes_def collect_path)

lemma list_inv_iff: "list_inv (h, l) = (\<exists>as. dll h l as)"
  by (auto simp: list_inv_def dest: dll_nodes)

lemma addr_list_bound:
  assumes "distinct (as :: addr list)" and "nullptr \<notin> set as"
  shows "length as \<le> 65535"
proof -
  have "length as = card (set as)"
    using assms(1) by (simp add: distinct_card)
  also have "\<dots> \<le> card (UNIV - {nullptr})"
    using assms(2) by (intro card_mono) auto
  also have "\<dots> = 65535"
    by (simp add: card_Diff_singleton card_word)
  finally show ?thesis .
qed

lemma unat_inc: "unat (x :: 16 word) < 65535 \<Longrightarrow> unat (x + 1) = Suc (unat x)"
  by (simp add: unat_word_ariths)

lemma unat_dec: "(x :: 16 word) \<noteq> 0 \<Longrightarrow> unat (x - 1) = unat x - 1"
  by (simp add: unat_minus_one)

lemma dll_empty: "dll h l [] = (first' l = nullptr \<and> last' l = nullptr \<and> size' l = 0)"
  by (auto simp: dll_def unat_eq_0)

lemma dll_ends:
  "dll h l as \<Longrightarrow> as \<noteq> [] \<Longrightarrow> first' l = hd as \<and> last' l = last as"
  by (auto simp: dll_def dest!: path_hd simp: hd_rev)

lemma dll_live:
  "dll h l as \<Longrightarrow> a \<in> set as \<Longrightarrow> a \<noteq> nullptr \<and> fmlookup h a \<noteq> None"
  unfolding dll_def using path_live by blast

lemma dll_room:
  assumes "dll h l as" and "a \<noteq> nullptr" and "fmlookup h a = None"
  shows "unat (size' l + 1) = Suc (length as)" and "a \<notin> set as"
proof -
  show notin: "a \<notin> set as"
    using dll_live [OF assms(1)] assms(3) by blast
  have "nullptr \<notin> set as"
    using dll_live [OF assms(1)] by blast
  with notin assms have "distinct (a # as)" and "nullptr \<notin> set (a # as)"
    by (auto simp: dll_def)
  then have "length (a # as) \<le> 65535"
    by (rule addr_list_bound)
  then show "unat (size' l + 1) = Suc (length as)"
    using assms(1) by (simp add: dll_def unat_inc)
qed

lemma elements_vals: "elements (h, l) = vals h (nodes (h, l))"
  by (simp add: elements_def vals_def)

lemma vals_simps [simp]:
  "vals h [] = []"
  "vals h (a # as) = (case fmlookup h a of None \<Rightarrow> [] | Some n \<Rightarrow> [data n]) @ vals h as"
  "vals h (as @ bs) = vals h as @ vals h bs"
  by (simp_all add: vals_def)

lemma vals_cong:
  "(\<And>x. x \<in> set as \<Longrightarrow> map_option data (fmlookup h' x) = map_option data (fmlookup h x))
    \<Longrightarrow> vals h' as = vals h as"
proof (induction as)
  case Nil
  then show ?case by simp
next
  case (Cons a as)
  have "map_option data (fmlookup h' a) = map_option data (fmlookup h a)"
    by (rule Cons.prems) simp
  moreover have "vals h' as = vals h as"
    by (rule Cons.IH) (simp add: Cons.prems)
  ultimately show ?case
    by (cases "fmlookup h a"; cases "fmlookup h' a"; simp)
qed

lemma detail_New_fresh:
  "detail_New alloc h = a \<Longrightarrow> a \<noteq> nullptr \<Longrightarrow> fmlookup h a = None"
  by (auto simp: detail_New_def Let_def split: option.splits)

lemma Node_New_fail:
  "detail_New alloc h = nullptr \<Longrightarrow> Node_New alloc v h = (nullptr, h)"
  by (simp add: Node_New_def)

lemma Node_New_ok:
  "detail_New alloc h = a \<Longrightarrow> a \<noteq> nullptr \<Longrightarrow>
     Node_New alloc v h = (a, fmupd a \<lparr>previous = nullptr, next = nullptr, data = v\<rparr> h)"
  by (simp add: Node_New_def)

lemma PushBack_fail:
  "detail_New alloc h = nullptr \<Longrightarrow> PushBack alloc v (h, l) = Inr (False, h, l)"
  by (simp add: PushBack_def Node_New_fail)

lemma PushBack_dll:
  assumes inv: "dll h l as" and new: "detail_New alloc h = a" and a: "a \<noteq> nullptr"
  shows "\<exists>h' l'. PushBack alloc v (h, l) = Inr (True, h', l') \<and> dll h' l' (as @ [a])
           \<and> vals h' (as @ [a]) = vals h as @ [v]
           \<and> (\<forall>x. x \<notin> set as \<longrightarrow> x \<noteq> a \<longrightarrow> fmlookup h' x = fmlookup h x)"
proof -
  from new a have fresh: "fmlookup h a = None" by (rule detail_New_fresh)
  from inv a fresh have sz: "unat (size' l + 1) = Suc (length as)" and notin: "a \<notin> set as"
    by (rule dll_room)+
  let ?n = "\<lparr>previous = nullptr, next = nullptr, data = v\<rparr>"
  let ?h1 = "fmupd a ?n h"
  have new': "Node_New alloc v h = (a, ?h1)"
    using new a by (rule Node_New_ok)
  show ?thesis
  proof (cases as rule: rev_cases)
    case Nil
    with inv have "size' l = 0" by (simp add: dll_empty)
    then have "PushBack alloc v (h, l) =
        Inr (True, ?h1, l\<lparr>first' := a, last' := a, size' := size' l + 1\<rparr>)"
      using a by (simp add: PushBack_def new')
    moreover have "dll ?h1 (l\<lparr>first' := a, last' := a, size' := size' l + 1\<rparr>) ([] @ [a])"
      using a sz Nil by (simp add: dll_def)
    ultimately show ?thesis
      using Nil by auto
  next
    case (snoc bs b)
    from inv snoc have last: "last' l = b" and first: "first' l = hd (bs @ [b])"
      using dll_ends [OF inv] by auto
    from inv snoc have b: "b \<noteq> nullptr" "b \<noteq> a" "b \<notin> set bs" "a \<notin> set bs"
      using dll_live [OF inv, of b] fresh notin by (auto simp: dll_def)
    from inv snoc obtain nb where nb: "fmlookup h b = Some nb" "next nb = nullptr"
      and pn: "path next h (first' l) bs b"
      by (auto simp: dll_def path_snoc)
    from inv snoc have pp: "path previous h (last' l) (b # rev bs) nullptr"
      by (simp add: dll_def)
    let ?h3 = "fmupd a (?n\<lparr>previous := b\<rparr>) (fmupd b (nb\<lparr>next := a\<rparr>) ?h1)"
    let ?l' = "l\<lparr>last' := a, size' := size' l + 1\<rparr>"
    from inv snoc have "size' l \<noteq> 0"
      by (auto simp: dll_def)
    then have run: "PushBack alloc v (h, l) = Inr (True, ?h3, ?l')"
      using a b nb last
      by (simp add: PushBack_def new' set_next_def set_previous_def deref_def)
    have "path next ?h3 (first' l) bs b = path next h (first' l) bs b"
      using b by (intro path_cong) auto
    with pn have pn': "path next ?h3 (first' l) (bs @ [b, a]) nullptr"
      using a b by (simp add: path_append)
    have "path previous ?h3 b (b # rev bs) nullptr = path previous h b (b # rev bs) nullptr"
      using b nb by (intro path_cong) auto
    with pp last have pp': "path previous ?h3 a (a # b # rev bs) nullptr"
      using a b by simp
    have "dll ?h3 ?l' (as @ [a])"
      using inv snoc pn' pp' sz notin b by (auto simp: dll_def)
    moreover have "vals ?h3 as = vals h as"
      using b nb snoc by (intro vals_cong) auto
    then have "vals ?h3 (as @ [a]) = vals h as @ [v]"
      by simp
    moreover have "\<forall>x. x \<notin> set as \<longrightarrow> x \<noteq> a \<longrightarrow> fmlookup ?h3 x = fmlookup h x"
      using snoc by auto
    ultimately show ?thesis
      using run by blast
  qed
qed

subsection \<open>What each operation does to a well-formed list\<close>

lemma PushFront_fail:
  "detail_New alloc h = nullptr \<Longrightarrow> PushFront alloc v (h, l) = Inr (False, h, l)"
  by (simp add: PushFront_def Node_New_fail)

lemma PushFront_dll:
  assumes inv: "dll h l as" and new: "detail_New alloc h = a" and a: "a \<noteq> nullptr"
  shows "\<exists>h' l'. PushFront alloc v (h, l) = Inr (True, h', l') \<and> dll h' l' (a # as)
           \<and> vals h' (a # as) = v # vals h as
           \<and> (\<forall>x. x \<notin> set as \<longrightarrow> x \<noteq> a \<longrightarrow> fmlookup h' x = fmlookup h x)"
proof -
  from new a have fresh: "fmlookup h a = None" by (rule detail_New_fresh)
  from inv a fresh have sz: "unat (size' l + 1) = Suc (length as)" and notin: "a \<notin> set as"
    by (rule dll_room)+
  let ?n = "\<lparr>previous = nullptr, next = nullptr, data = v\<rparr>"
  let ?h1 = "fmupd a ?n h"
  have new': "Node_New alloc v h = (a, ?h1)"
    using new a by (rule Node_New_ok)
  show ?thesis
  proof (cases as)
    case Nil
    with inv have "size' l = 0" by (simp add: dll_empty)
    then have "PushFront alloc v (h, l) =
        Inr (True, ?h1, l\<lparr>first' := a, last' := a, size' := size' l + 1\<rparr>)"
      using a by (simp add: PushFront_def new')
    moreover have "dll ?h1 (l\<lparr>first' := a, last' := a, size' := size' l + 1\<rparr>) [a]"
      using a sz Nil by (simp add: dll_def)
    ultimately show ?thesis
      using Nil by auto
  next
    case (Cons b bs)
    from inv Cons have first: "first' l = b"
      using dll_ends [OF inv] by auto
    from inv Cons have b: "b \<noteq> nullptr" "b \<noteq> a" "b \<notin> set bs" "a \<notin> set bs"
      using dll_live [OF inv, of b] fresh notin by (auto simp: dll_def)
    from inv Cons obtain nb where nb: "fmlookup h b = Some nb" "previous nb = nullptr"
      and pp: "path previous h (last' l) (rev bs) b"
      by (auto simp: dll_def path_snoc)
    from inv Cons have pn: "path next h (first' l) (b # bs) nullptr"
      by (simp add: dll_def)
    let ?h3 = "fmupd b (nb\<lparr>previous := a\<rparr>) (fmupd a (?n\<lparr>next := b\<rparr>) ?h1)"
    let ?l' = "l\<lparr>first' := a, size' := size' l + 1\<rparr>"
    from inv Cons have "size' l \<noteq> 0"
      by (auto simp: dll_def)
    then have run: "PushFront alloc v (h, l) = Inr (True, ?h3, ?l')"
      using a b nb first
      by (simp add: PushFront_def new' set_next_def set_previous_def deref_def)
    have "path previous ?h3 (last' l) (rev bs) b = path previous h (last' l) (rev bs) b"
      using b by (intro path_cong) auto
    with pp have pp': "path previous ?h3 (last' l) (rev bs @ [b, a]) nullptr"
      using a b nb by (simp add: path_append)
    have "path next ?h3 b (b # bs) nullptr = path next h b (b # bs) nullptr"
      using b nb by (intro path_cong) auto
    with pn first have pn': "path next ?h3 a (a # b # bs) nullptr"
      using a b by simp
    have "dll ?h3 ?l' (a # as)"
      using inv Cons pn' pp' sz notin b by (auto simp: dll_def)
    moreover have "vals ?h3 as = vals h as"
      using b nb Cons by (intro vals_cong) auto
    then have "vals ?h3 (a # as) = v # vals h as"
      using b by simp
    moreover have "\<forall>x. x \<notin> set as \<longrightarrow> x \<noteq> a \<longrightarrow> fmlookup ?h3 x = fmlookup h x"
      using Cons by auto
    ultimately show ?thesis
      using run by blast
  qed
qed

lemma RemoveAllNodes_loop_path:
  "path next h p as nullptr \<Longrightarrow> distinct as \<Longrightarrow>
     RemoveAllNodes_loop \<lparr>node' = p\<rparr> h = Inr (fmdrop_set (set as) h)"
proof (induction as arbitrary: p h)
  case Nil
  then show ?case
    by (simp add: Iterator_neq_def List_end_def)
next
  case (Cons a as)
  from Cons.prems obtain n where n: "p = a" "a \<noteq> nullptr" "fmlookup h a = Some n"
    and rest: "path next h (next n) as nullptr"
    by (auto split: option.splits)
  have "path next (fmdrop a h) (next n) as nullptr = path next h (next n) as nullptr"
    using Cons.prems by (intro path_cong) auto
  with rest Cons.prems
  have "RemoveAllNodes_loop \<lparr>node' = next n\<rparr> (fmdrop a h) = Inr (fmdrop_set (set as) (fmdrop a h))"
    by (intro Cons.IH) auto
  moreover have "fmdrop_set (set as) (fmdrop a h) = fmdrop_set (set (a # as)) h"
    by (rule fmap_ext) auto
  ultimately show ?case
    using n
    by (simp add: Iterator_neq_def List_end_def Node_Get_def Address_def deref_def
                  Node_Delete_def detail_Delete_def del: RemoveAllNodes_loop.simps
             add: RemoveAllNodes_loop.simps [of "\<lparr>node' = a\<rparr>"])
qed

lemma Clear_dll:
  assumes "dll h l as"
  shows "Clear (h, l) = Inr (fmdrop_set (set as) h, empty_List)"
  using assms RemoveAllNodes_loop_path [of h "first' l" as]
  by (simp add: Clear_def RemoveAllNodes_def List_begin_def dll_def empty_List_def)

lemma dll_empty_List: "dll h empty_List []"
  by (simp add: dll_def empty_List_def)

lemma iterate_path:
  "path next h p as nullptr \<Longrightarrow> iterate h \<lparr>node' = p\<rparr> = Some (Inr (vals h as))"
proof (induction as arbitrary: p)
  case Nil
  then show ?case
    by (simp add: iterate.simps Iterator_neq_def List_end_def)
next
  case (Cons a as)
  from Cons.prems obtain n where n: "p = a" "a \<noteq> nullptr" "fmlookup h a = Some n"
    and rest: "path next h (next n) as nullptr"
    by (auto split: option.splits)
  from rest have "iterate h \<lparr>node' = next n\<rparr> = Some (Inr (vals h as))"
    by (rule Cons.IH)
  then show ?case
    using n
    by (subst iterate.simps)
       (simp add: Iterator_neq_def List_end_def Iterator_deref_def Iterator_inc_def deref_def)
qed

lemma iterate_dll:
  "dll h l as \<Longrightarrow> iterate h (List_begin l) = Some (Inr (vals h as))"
  by (simp add: dll_def List_begin_def iterate_path)

lemma fmdrop_set_single: "fmdrop_set {a} h = fmdrop a h"
  by (rule fmap_ext) auto

lemma size_le_1: "dll h l as \<Longrightarrow> (size' l \<le> 1) = (length as \<le> 1)"
  by (simp add: dll_def word_le_nat_alt)

lemma size_dec:
  assumes "dll h l as" and "as \<noteq> []"
  shows "unat (size' l - 1) = length as - 1"
proof -
  from assms have "unat (size' l) \<noteq> 0"
    by (simp add: dll_def)
  then have "size' l \<noteq> 0"
    by auto
  then show ?thesis
    using assms(1) by (simp add: unat_dec dll_def)
qed


lemma PopFront_dll:
  assumes inv: "dll h l as"
  shows "\<exists>h' l'. PopFront (h, l) = Inr (h', l') \<and> dll h' l' (tl as)
           \<and> vals h' (tl as) = tl (vals h as)
           \<and> (\<forall>x. x \<notin> set as \<longrightarrow> fmlookup h' x = fmlookup h x)
           \<and> (\<forall>x. x \<in> set as \<longrightarrow> x \<notin> set (tl as) \<longrightarrow> fmlookup h' x = None)"
proof (cases as)
  case Nil
  with inv have "PopFront (h, l) = Inr (h, empty_List)"
    using Clear_dll [OF inv] size_le_1 [OF inv] by (simp add: PopFront_def)
  then show ?thesis
    using Nil dll_empty_List by auto
next
  case (Cons a bs)
  note as = Cons
  from inv as obtain na where na: "a \<noteq> nullptr" "fmlookup h a = Some na"
    and first: "first' l = a" and pn: "path next h (next na) bs nullptr"
    by (auto simp: dll_def split: option.splits)
  show ?thesis
  proof (cases bs)
    case Nil
    with inv as have "PopFront (h, l) = Inr (fmdrop a h, empty_List)"
      using Clear_dll [OF inv] size_le_1 [OF inv] by (simp add: PopFront_def fmdrop_set_single)
    then show ?thesis
      using Nil as na dll_empty_List by auto
  next
    case (Cons b cs)
    from inv as Cons have d: "a \<noteq> b" "a \<notin> set cs" "b \<notin> set cs" "distinct cs"
      by (auto simp: dll_def)
    from pn Cons obtain nb where nb: "next na = b" "b \<noteq> nullptr" "fmlookup h b = Some nb"
      by (auto split: option.splits)
    from inv as Cons have "path previous h (last' l) (rev cs @ [b, a]) nullptr"
      by (simp add: dll_def)
    then have pp: "path previous h (last' l) (rev cs) b"
      by (auto simp: path_append)
    let ?h2 = "fmdrop a (fmupd b (nb\<lparr>previous := nullptr\<rparr>) h)"
    let ?l' = "l\<lparr>first' := b, size' := size' l - 1\<rparr>"
    have "\<not> size' l \<le> 1"
      using size_le_1 [OF inv] as Cons by simp
    then have run: "PopFront (h, l) = Inr (?h2, ?l')"
      using na nb first d
      by (simp add: PopFront_def deref_def set_previous_def Node_Delete_def detail_Delete_def)
    have "path next ?h2 b (b # cs) nullptr = path next h b (b # cs) nullptr"
      using d nb by (intro path_cong) auto
    with pn Cons nb have pn': "path next ?h2 b (b # cs) nullptr"
      by simp
    have "path previous ?h2 (last' l) (rev cs) b = path previous h (last' l) (rev cs) b"
      using d by (intro path_cong) auto
    with pp have pp': "path previous ?h2 (last' l) (rev cs @ [b]) nullptr"
      using nb d by (simp add: path_snoc)
    have "unat (size' l - 1) = length bs"
      using size_dec [OF inv] as by simp
    with pn' pp' d Cons have "dll ?h2 ?l' bs"
      by (simp add: dll_def)
    moreover have "vals ?h2 bs = vals h bs"
      using d nb Cons by (intro vals_cong) auto
    then have "vals ?h2 (tl as) = tl (vals h as)"
      using as na by simp
    moreover have "\<forall>x. x \<notin> set as \<longrightarrow> fmlookup ?h2 x = fmlookup h x"
      using as Cons by auto
    moreover have "\<forall>x. x \<in> set as \<longrightarrow> x \<notin> set (tl as) \<longrightarrow> fmlookup ?h2 x = None"
      using as by auto
    ultimately show ?thesis
      using run as by auto
  qed
qed

lemma PopBack_dll:
  assumes inv: "dll h l as"
  shows "\<exists>h' l'. PopBack (h, l) = Inr (h', l') \<and> dll h' l' (butlast as)
           \<and> vals h' (butlast as) = butlast (vals h as)
           \<and> (\<forall>x. x \<notin> set as \<longrightarrow> fmlookup h' x = fmlookup h x)
           \<and> (\<forall>x. x \<in> set as \<longrightarrow> x \<notin> set (butlast as) \<longrightarrow> fmlookup h' x = None)"
proof (cases as rule: rev_cases)
  case Nil
  with inv have "PopBack (h, l) = Inr (h, empty_List)"
    using Clear_dll [OF inv] size_le_1 [OF inv] by (simp add: PopBack_def)
  then show ?thesis
    using Nil dll_empty_List by auto
next
  case (snoc bs a)
  note as = snoc
  from inv as obtain na where na: "a \<noteq> nullptr" "fmlookup h a = Some na"
    and last: "last' l = a" and pp: "path previous h (previous na) (rev bs) nullptr"
    by (auto simp: dll_def split: option.splits)
  show ?thesis
  proof (cases bs rule: rev_cases)
    case Nil
    with inv as have "PopBack (h, l) = Inr (fmdrop a h, empty_List)"
      using Clear_dll [OF inv] size_le_1 [OF inv] by (simp add: PopBack_def fmdrop_set_single)
    then show ?thesis
      using Nil as na dll_empty_List by auto
  next
    case (snoc cs b)
    from inv as snoc have d: "a \<noteq> b" "a \<notin> set cs" "b \<notin> set cs" "distinct cs"
      by (auto simp: dll_def)
    from pp snoc obtain nb where nb: "previous na = b" "b \<noteq> nullptr" "fmlookup h b = Some nb"
      by (auto split: option.splits)
    from inv as snoc have "path next h (first' l) (cs @ [b, a]) nullptr"
      by (simp add: dll_def)
    then have pn: "path next h (first' l) cs b"
      by (auto simp: path_append)
    let ?h2 = "fmdrop a (fmupd b (nb\<lparr>next := nullptr\<rparr>) h)"
    let ?l' = "l\<lparr>last' := b, size' := size' l - 1\<rparr>"
    have "\<not> size' l \<le> 1"
      using size_le_1 [OF inv] as snoc by simp
    then have run: "PopBack (h, l) = Inr (?h2, ?l')"
      using na nb last d
      by (simp add: PopBack_def deref_def set_next_def Node_Delete_def detail_Delete_def)
    have "path previous ?h2 b (b # rev cs) nullptr = path previous h b (b # rev cs) nullptr"
      using d nb by (intro path_cong) auto
    with pp snoc nb have pp': "path previous ?h2 b (b # rev cs) nullptr"
      by simp
    have "path next ?h2 (first' l) cs b = path next h (first' l) cs b"
      using d by (intro path_cong) auto
    with pn have pn': "path next ?h2 (first' l) (cs @ [b]) nullptr"
      using nb d by (simp add: path_snoc)
    have "unat (size' l - 1) = length bs"
      using size_dec [OF inv] as by simp
    with pn' pp' d snoc have "dll ?h2 ?l' bs"
      by (simp add: dll_def)
    moreover have "vals ?h2 bs = vals h bs"
      using d nb snoc by (intro vals_cong) auto
    then have "vals ?h2 (butlast as) = butlast (vals h as)"
      using as na by simp
    moreover have "\<forall>x. x \<notin> set as \<longrightarrow> fmlookup ?h2 x = fmlookup h x"
      using as snoc by auto
    moreover have "\<forall>x. x \<in> set as \<longrightarrow> x \<notin> set (butlast as) \<longrightarrow> fmlookup ?h2 x = None"
      using as by auto
    ultimately show ?thesis
      using run as by auto
  qed
qed

lemma list_inv_dll: "list_inv (h, l) \<Longrightarrow> dll h l (nodes (h, l))"
  by (simp add: list_inv_def)

lemma dll_list_inv: "dll h l as \<Longrightarrow> list_inv (h, l)"
  using list_inv_iff by blast

lemma dll_same_List:
  assumes "dll h l as" and "dll h' l' as"
  shows "l = l'"
proof -
  have "unat (size' l) = unat (size' l')"
    using assms by (simp add: dll_def)
  then have "size' l = size' l'"
    by (simp add: word_unat_eq_iff)
  moreover have "first' l = first' l' \<and> last' l = last' l'"
  proof (cases as)
    case Nil
    with assms show ?thesis by (simp add: dll_empty)
  next
    case (Cons a bs)
    with assms show ?thesis
      using dll_ends [of h l as] dll_ends [of h' l' as] by simp
  qed
  ultimately show ?thesis
    by simp
qed

lemma elements_dll: "dll h l as \<Longrightarrow> elements (h, l) = vals h as"
  by (simp add: elements_vals dll_nodes)

subsection \<open>The example lists\<close>

lemma list_7_eq:
  "list_7 = (fmupd 1 \<lparr>previous = nullptr, next = nullptr, data = 7\<rparr> fmempty,
             \<lparr>first' = 1, last' = 1, size' = 1\<rparr>)"
  by (simp add: list_7_def PushBack_def Node_New_def detail_New_def pool_alloc_def empty_List_def)

lemma list_7_inv: "list_inv list_7"
  by (simp add: list_7_eq list_inv_def nodes_def dll_def)

lemma list_123_eq:
  "list_123 =
     (fmupd 3 \<lparr>previous = 2, next = nullptr, data = 3\<rparr>
       (fmupd 2 \<lparr>previous = 1, next = 3, data = 2\<rparr>
         (fmupd 3 \<lparr>previous = nullptr, next = nullptr, data = 3\<rparr>
           (fmupd 2 \<lparr>previous = 1, next = nullptr, data = 2\<rparr>
             (fmupd 1 \<lparr>previous = nullptr, next = 2, data = 1\<rparr>
               (fmupd 2 \<lparr>previous = nullptr, next = nullptr, data = 2\<rparr>
                 (fmupd 1 \<lparr>previous = nullptr, next = nullptr, data = 1\<rparr> fmempty)))))),
      \<lparr>first' = 1, last' = 3, size' = 3\<rparr>)"
  by (simp add: list_123_def PushBack_def Node_New_def detail_New_def pool_alloc_def empty_List_def
                set_next_def set_previous_def deref_def)

lemma list_123_inv: "list_inv list_123"
  unfolding list_123_eq
  by (rule dll_list_inv [where as = "[1, 2, 3]"]) (simp add: dll_def)

subsection \<open>Sequences of pushes, frames and \<open>Resize\<close>\<close>

lemma PushBack_seq_dll:
  "dll h l as \<Longrightarrow>
     \<exists>oks h' l' bs. PushBack_seq cs (h, l) = Inr (oks, h', l') \<and> dll h' l' (as @ bs) \<and>
        length oks = length cs \<and> length bs = length (filter (\<lambda>ok. ok) oks) \<and>
        vals h' (as @ bs) = vals h as @ map (snd \<circ> snd) (filter fst (zip oks cs))"
proof (induction cs arbitrary: h l as)
  case Nil
  then show ?case by simp
next
  case (Cons c cs)
  show ?case
  proof (cases "detail_New (fst c) h = nullptr")
    case True
    then have push: "PushBack (fst c) (snd c) (h, l) = Inr (False, h, l)"
      by (rule PushBack_fail)
    from Cons.IH [OF Cons.prems] obtain oks h' l' bs
      where "PushBack_seq cs (h, l) = Inr (oks, h', l')" "dll h' l' (as @ bs)"
        "length oks = length cs" "length bs = length (filter (\<lambda>ok. ok) oks)"
        "vals h' (as @ bs) = vals h as @ map (snd \<circ> snd) (filter fst (zip oks cs))"
      by blast
    with push show ?thesis
      by (intro exI [of _ "False # oks"] exI [of _ h'] exI [of _ l'] exI [of _ bs]) simp
  next
    case False
    define a where "a = detail_New (fst c) h"
    from PushBack_dll [OF Cons.prems a_def [symmetric], of "snd c"] False
    obtain h1 l1 where push: "PushBack (fst c) (snd c) (h, l) = Inr (True, h1, l1)"
      and inv1: "dll h1 l1 (as @ [a])" and v1: "vals h1 (as @ [a]) = vals h as @ [snd c]"
      by (auto simp: a_def)
    from Cons.IH [OF inv1] obtain oks h' l' bs
      where rest: "PushBack_seq cs (h1, l1) = Inr (oks, h', l')" "dll h' l' ((as @ [a]) @ bs)"
        "length oks = length cs" "length bs = length (filter (\<lambda>ok. ok) oks)"
        "vals h' ((as @ [a]) @ bs) = vals h1 (as @ [a]) @ map (snd \<circ> snd) (filter fst (zip oks cs))"
      by blast
    with push v1 show ?thesis
      by (intro exI [of _ "True # oks"] exI [of _ h'] exI [of _ l'] exI [of _ "a # bs"]) simp
  qed
qed

lemma frame_refl: "frame h as h as"
  by (simp add: frame_def)

lemma frame_trans:
  assumes "frame h as h1 as1" and "frame h1 as1 h2 as2"
  shows "frame h as h2 as2"
  unfolding frame_def
proof (intro conjI allI impI ballI)
  fix x
  assume x: "x \<notin> set as" "fmlookup h x \<noteq> None"
  with assms(1) have 1: "fmlookup h1 x = fmlookup h x"
    by (simp add: frame_def)
  with x assms(1) have "x \<notin> set as1"
    by (auto simp: frame_def)
  with assms(2) 1 x show "fmlookup h2 x = fmlookup h x"
    by (simp add: frame_def)
next
  fix x
  assume "x \<in> set as2"
  with assms(2) have "x \<in> set as1 \<or> fmlookup h1 x = None"
    by (simp add: frame_def)
  with assms(1) show "x \<in> set as \<or> fmlookup h x = None"
    by (auto simp: frame_def)
qed

lemma PushBack_frame:
  assumes "dll h l as" and "detail_New alloc h = a" and "a \<noteq> nullptr"
  shows "\<exists>h' l'. PushBack alloc v (h, l) = Inr (True, h', l') \<and> dll h' l' (as @ [a]) \<and>
           vals h' (as @ [a]) = vals h as @ [v] \<and> frame h as h' (as @ [a])"
proof -
  from assms(2,3) have "fmlookup h a = None"
    by (rule detail_New_fresh)
  with PushBack_dll [OF assms, of v] show ?thesis
    unfolding frame_def by fastforce
qed

lemma PushFront_frame:
  assumes "dll h l as" and "detail_New alloc h = a" and "a \<noteq> nullptr"
  shows "\<exists>h' l'. PushFront alloc v (h, l) = Inr (True, h', l') \<and> dll h' l' (a # as) \<and>
           vals h' (a # as) = v # vals h as \<and> frame h as h' (a # as)"
proof -
  from assms(2,3) have "fmlookup h a = None"
    by (rule detail_New_fresh)
  with PushFront_dll [OF assms, of v] show ?thesis
    unfolding frame_def by fastforce
qed

lemma PopFront_frame:
  assumes "dll h l as"
  shows "\<exists>h' l'. PopFront (h, l) = Inr (h', l') \<and> dll h' l' (tl as) \<and>
           vals h' (tl as) = tl (vals h as) \<and> frame h as h' (tl as)"
proof -
  have "set (tl as) \<subseteq> set as"
    by (cases as) auto
  with PopFront_dll [OF assms] show ?thesis
    unfolding frame_def by fastforce
qed

lemma PopBack_frame:
  assumes "dll h l as"
  shows "\<exists>h' l'. PopBack (h, l) = Inr (h', l') \<and> dll h' l' (butlast as) \<and>
           vals h' (butlast as) = butlast (vals h as) \<and> frame h as h' (butlast as)"
proof -
  have "set (butlast as) \<subseteq> set as"
    by (auto dest: in_set_butlastD)
  with PopBack_dll [OF assms] show ?thesis
    unfolding frame_def by fastforce
qed

lemma Clear_frame:
  assumes "dll h l as"
  shows "\<exists>h'. Clear (h, l) = Inr (h', empty_List) \<and> dll h' empty_List [] \<and> frame h as h' []"
  using Clear_dll [OF assms] dll_empty_List by (auto simp: frame_def)

lemma Resize_grow_dll:
  "dll h l as \<Longrightarrow>
     \<exists>ok h' l' k. Resize_grow alloc n v (h, l) = Inr (ok, h', l') \<and>
        (\<exists>bs. length bs = k \<and> dll h' l' (as @ bs) \<and> frame h as h' (as @ bs) \<and>
              vals h' (as @ bs) = vals h as @ replicate k v) \<and>
        (ok \<longrightarrow> \<not> size' l' < n) \<and>
        (\<not> ok \<longrightarrow> size' l' < n \<and> detail_New alloc h' = nullptr) \<and>
        (size' l \<le> n \<longrightarrow> size' l' \<le> n) \<and>
        (\<not> size' l < n \<longrightarrow> ok \<and> k = 0 \<and> h' = h \<and> l' = l)"
proof (induction "unat n - unat (size' l)" arbitrary: h l as rule: less_induct)
  case less
  note inv = \<open>dll h l as\<close>
  show ?case
  proof (cases "size' l < n")
    case False
    then have "Resize_grow alloc n v (h, l) = Inr (True, h, l)"
      by simp
    with False inv show ?thesis
      by (intro exI [of _ True] exI [of _ h] exI [of _ l] exI [of _ 0])
         (auto simp: frame_refl)
  next
    case True
    show ?thesis
    proof (cases "detail_New alloc h = nullptr")
      case none: True
      then have "PushBack alloc v (h, l) = Inr (False, h, l)"
        by (rule PushBack_fail)
      with True have "Resize_grow alloc n v (h, l) = Inr (False, h, l)"
        by simp
      with True none inv show ?thesis
        by (intro exI [of _ False] exI [of _ h] exI [of _ l] exI [of _ 0])
           (auto simp: frame_refl)
    next
      case False
      define a where "a = detail_New alloc h"
      from PushBack_frame [OF inv a_def [symmetric], of v] False
      obtain h1 l1 where push: "PushBack alloc v (h, l) = Inr (True, h1, l1)"
        and inv1: "dll h1 l1 (as @ [a])" and v1: "vals h1 (as @ [a]) = vals h as @ [v]"
        and f1: "frame h as h1 (as @ [a])"
        by (auto simp: a_def)
      from inv inv1 have sz: "unat (size' l1) = Suc (unat (size' l))"
        by (simp add: dll_def)
      from True have lt: "unat (size' l) < unat n"
        by (simp add: word_less_nat_alt)
      with sz have "unat n - unat (size' l1) < unat n - unat (size' l)"
        by simp
      from less.hyps [OF this inv1] obtain ok h' l' k bs
        where rec: "Resize_grow alloc n v (h1, l1) = Inr (ok, h', l')"
          and bs: "length bs = k" "dll h' l' ((as @ [a]) @ bs)" "frame h1 (as @ [a]) h' ((as @ [a]) @ bs)"
            "vals h' ((as @ [a]) @ bs) = vals h1 (as @ [a]) @ replicate k v"
          and ok: "ok \<longrightarrow> \<not> size' l' < n" "\<not> ok \<longrightarrow> size' l' < n \<and> detail_New alloc h' = nullptr"
          and le: "size' l1 \<le> n \<longrightarrow> size' l' \<le> n"
        by blast
      from push True rec have run: "Resize_grow alloc n v (h, l) = Inr (ok, h', l')"
        by simp
      from sz lt have "size' l1 \<le> n"
        by (simp add: word_le_nat_alt)
      with le have le': "size' l' \<le> n" by simp
      have f: "frame h as h' (as @ a # bs)"
        using frame_trans [OF f1 bs(3)] by simp
      have "vals h' (as @ a # bs) = vals h as @ replicate (Suc k) v"
        using bs(4) v1 by (simp add: replicate_app_Cons_same)
      with bs f have "\<exists>cs. length cs = Suc k \<and> dll h' l' (as @ cs) \<and> frame h as h' (as @ cs) \<and>
          vals h' (as @ cs) = vals h as @ replicate (Suc k) v"
        by (intro exI [of _ "a # bs"]) simp
      with run ok le' True show ?thesis
        by (intro exI [of _ ok] exI [of _ h'] exI [of _ l'] exI [of _ "Suc k"]) simp
    qed
  qed
qed

lemma Resize_shrink_dll:
  "dll h l as \<Longrightarrow>
     \<exists>h' l'. Resize_shrink n (h, l) = Inr (h', l') \<and>
        dll h' l' (drop (length as - unat n) as) \<and>
        frame h as h' (drop (length as - unat n) as) \<and>
        vals h' (drop (length as - unat n) as) = drop (length as - unat n) (vals h as)"
proof (induction "length as" arbitrary: h l as rule: less_induct)
  case less
  note inv = \<open>dll h l as\<close>
  then have sz: "unat (size' l) = length as"
    by (simp add: dll_def)
  show ?case
  proof (cases "n < size' l")
    case False
    then have "Resize_shrink n (h, l) = Inr (h, l)"
      by simp
    moreover from False sz have "length as - unat n = 0"
      by (simp add: word_less_nat_alt)
    ultimately show ?thesis
      using inv by (simp add: frame_refl)
  next
    case True
    with sz have lt: "unat n < length as"
      by (simp add: word_less_nat_alt)
    then have ne: "as \<noteq> []" by auto
    from PopFront_frame [OF inv] obtain h1 l1 where pop: "PopFront (h, l) = Inr (h1, l1)"
      and inv1: "dll h1 l1 (tl as)" and v1: "vals h1 (tl as) = tl (vals h as)"
      and f1: "frame h as h1 (tl as)"
      by blast
    from ne have "length (tl as) < length as" by simp
    from less.hyps [OF this inv1] obtain h' l'
      where rec: "Resize_shrink n (h1, l1) = Inr (h', l')"
        and 1: "dll h' l' (drop (length (tl as) - unat n) (tl as))"
        and 2: "frame h1 (tl as) h' (drop (length (tl as) - unat n) (tl as))"
        and 3: "vals h' (drop (length (tl as) - unat n) (tl as)) =
                drop (length (tl as) - unat n) (vals h1 (tl as))"
      by blast
    have d: "drop (length (tl as) - unat n) (tl xs) = drop (length as - unat n) xs" for xs :: "'b list"
      using lt by (simp add: drop_Suc [symmetric] Suc_diff_Suc)
    from pop True rec have "Resize_shrink n (h, l) = Inr (h', l')"
      by simp
    moreover note 1 [unfolded d] frame_trans [OF f1 2, unfolded d] 3 [unfolded v1 d]
    ultimately show ?thesis
      by blast
  qed
qed

lemma Resize_dll:
  assumes inv: "dll h l as"
  shows "\<exists>ok h' l' as'. Resize alloc n v (h, l) = Inr (ok, h', l') \<and> dll h' l' as' \<and>
           frame h as h' as' \<and>
           (ok \<longrightarrow> size' l' = n) \<and>
           (\<not> ok \<longrightarrow> size' l' < n \<and> detail_New alloc h' = nullptr) \<and>
           (n \<le> size' l \<longrightarrow> ok) \<and>
           vals h' as' =
             (if size' l \<le> n then vals h as @ replicate (unat (size' l') - unat (size' l)) v
              else drop (unat (size' l) - unat n) (vals h as))"
proof -
  from inv have sz: "unat (size' l) = length as"
    by (simp add: dll_def)
  from Resize_grow_dll [OF inv, of alloc n v] obtain ok h1 l1 k bs
    where grow: "Resize_grow alloc n v (h, l) = Inr (ok, h1, l1)"
      and bs: "length bs = k" "dll h1 l1 (as @ bs)" "frame h as h1 (as @ bs)"
        "vals h1 (as @ bs) = vals h as @ replicate k v"
      and ok: "ok \<longrightarrow> \<not> size' l1 < n" "\<not> ok \<longrightarrow> size' l1 < n \<and> detail_New alloc h1 = nullptr"
      and le: "size' l \<le> n \<longrightarrow> size' l1 \<le> n"
      and stay: "\<not> size' l < n \<longrightarrow> ok \<and> k = 0 \<and> h1 = h \<and> l1 = l"
    by blast
  from bs have sz1: "unat (size' l1) = length as + k"
    by (simp add: dll_def)
  show ?thesis
  proof (cases ok)
    case False
    with grow have run: "Resize alloc n v (h, l) = Inr (False, h1, l1)"
      by (simp add: Resize_def)
    from False stay have lt: "size' l < n" by blast
    then have "size' l \<le> n" and "\<not> n \<le> size' l" by simp_all
    with run bs ok False sz sz1 show ?thesis
      by (intro exI [of _ False] exI [of _ h1] exI [of _ l1] exI [of _ "as @ bs"]) auto
  next
    case True
    from Resize_shrink_dll [OF bs(2), of n] obtain h2 l2
      where shrink: "Resize_shrink n (h1, l1) = Inr (h2, l2)"
        and 1: "dll h2 l2 (drop (length (as @ bs) - unat n) (as @ bs))"
        and 2: "frame h1 (as @ bs) h2 (drop (length (as @ bs) - unat n) (as @ bs))"
        and 3: "vals h2 (drop (length (as @ bs) - unat n) (as @ bs)) =
                drop (length (as @ bs) - unat n) (vals h1 (as @ bs))"
      by blast
    from grow shrink True have run: "Resize alloc n v (h, l) = Inr (True, h2, l2)"
      by (simp add: Resize_def)
    from True ok have ge: "unat n \<le> unat (size' l1)"
      by (simp add: word_less_nat_alt)
    from 1 have "unat (size' l2) = length (as @ bs) - (length (as @ bs) - unat n)"
      by (simp add: dll_def)
    with ge sz1 bs(1) have "unat (size' l2) = unat n"
      by simp
    then have n: "size' l2 = n"
      by (simp add: word_unat_eq_iff)
    show ?thesis
    proof (cases "size' l \<le> n")
      case le': True
      with le ge have "unat (size' l1) = unat n"
        by (simp add: word_le_nat_alt)
      with sz1 bs(1) have z: "length (as @ bs) - unat n = 0"
        by simp
      from 1 2 3 have "dll h2 l2 (as @ bs)" "frame h1 (as @ bs) h2 (as @ bs)"
        "vals h2 (as @ bs) = vals h1 (as @ bs)"
        unfolding z by simp_all
      moreover from sz sz1 n have "k = unat (size' l2) - unat (size' l)"
        using \<open>unat (size' l1) = unat n\<close> by simp
      ultimately show ?thesis
        using run n le' bs frame_trans [OF bs(3)]
        by (intro exI [of _ True] exI [of _ h2] exI [of _ l2] exI [of _ "as @ bs"]) auto
    next
      case False
      then have "\<not> size' l < n" by simp
      with stay have same: "k = 0" "h1 = h" "l1 = l" by simp_all
      with bs(1) have "bs = []" by simp
      with 1 2 3 same sz run n False show ?thesis
        by (intro exI [of _ True] exI [of _ h2] exI [of _ l2]
                  exI [of _ "drop (length as - unat n) as"]) simp
    qed
  qed
qed

lemma Resize_list_inv:
  assumes "list_inv s"
  shows "\<exists>ok s'. Resize alloc n v s = Inr (ok, s') \<and> list_inv s' \<and>
         (ok \<longrightarrow> Size (snd s') = n) \<and>
         (\<not> ok \<longrightarrow> Size (snd s') < n \<and> detail_New alloc (fst s') = nullptr) \<and>
         (n \<le> Size (snd s) \<longrightarrow> ok) \<and>
         iterate (fst s') (List_begin (snd s')) =
           Some (Inr (if Size (snd s) \<le> n
                      then elements s @ replicate (unat (Size (snd s')) - unat (Size (snd s))) v
                      else drop (unat (Size (snd s)) - unat n) (elements s)))"
proof -
  obtain h l where s: "s = (h, l)" by (cases s)
  define as where "as = nodes (h, l)"
  from assms s have inv: "dll h l as"
    by (simp add: list_inv_dll as_def)
  then have el: "elements (h, l) = vals h as"
    by (rule elements_dll)
  from Resize_dll [OF inv, of alloc n v] obtain ok h' l' as'
    where run: "Resize alloc n v (h, l) = Inr (ok, h', l')" and inv': "dll h' l' as'"
      and ok: "ok \<longrightarrow> size' l' = n" "\<not> ok \<longrightarrow> size' l' < n \<and> detail_New alloc h' = nullptr"
        "n \<le> size' l \<longrightarrow> ok"
      and v: "vals h' as' =
           (if size' l \<le> n then vals h as @ replicate (unat (size' l') - unat (size' l)) v
            else drop (unat (size' l) - unat n) (vals h as))"
    by blast
  have it: "iterate h' (List_begin l') = Some (Inr (vals h' as'))"
    using inv' by (rule iterate_dll)
  have inv'': "list_inv (h', l')"
    using inv' by (rule dll_list_inv)
  show ?thesis
    unfolding s
    by (rule exI [of _ ok], rule exI [of _ "(h', l')"])
       (simp only: fst_conv snd_conv Size_def run inv'' it v el simp_thms, intro conjI ok)
qed

lemma iterate_list_inv:
  "list_inv s \<Longrightarrow> iterate (fst s) (List_begin (snd s)) = Some (Inr (elements s))"
  by (cases s) (simp add: list_inv_dll iterate_dll elements_vals)

lemma Resize_shrinks:
  assumes inv: "list_inv s" and le: "n \<le> Size (snd s)"
  shows "\<exists>s'. Resize alloc n v s = Inr (True, s') \<and> list_inv s' \<and> Size (snd s') = n \<and>
           nodes s' = drop (unat (Size (snd s)) - unat n) (nodes s) \<and>
           iterate (fst s') (List_begin (snd s')) =
             Some (Inr (drop (unat (Size (snd s)) - unat n) (elements s)))"
proof -
  obtain h l where s: "s = (h, l)" by (cases s)
  define as where "as = nodes (h, l)"
  from inv s have d: "dll h l as"
    by (simp add: list_inv_dll as_def)
  then have sz: "unat (size' l) = length as"
    by (simp add: dll_def)
  from le s have "\<not> size' l < n"
    by (simp add: Size_def)
  then have grow: "Resize_grow alloc n v (h, l) = Inr (True, h, l)"
    by simp
  let ?k = "length as - unat n"
  from Resize_shrink_dll [OF d, of n] obtain h' l'
    where shrink: "Resize_shrink n (h, l) = Inr (h', l')" and d': "dll h' l' (drop ?k as)"
      and v': "vals h' (drop ?k as) = drop ?k (vals h as)"
    by blast
  from grow shrink have run: "Resize alloc n v (h, l) = Inr (True, h', l')"
    by (simp add: Resize_def)
  from le s sz have "unat n \<le> length as"
    by (simp add: Size_def word_le_nat_alt)
  with d' have "unat (size' l') = unat n"
    by (simp add: dll_def)
  then have n: "size' l' = n"
    by (simp add: word_unat_eq_iff)
  have "iterate h' (List_begin l') = Some (Inr (drop ?k (vals h as)))"
    using iterate_dll [OF d'] v' by simp
  with run n d' d sz show ?thesis
    unfolding s
    by (intro exI [of _ "(h', l')"])
       (simp add: Size_def dll_list_inv dll_nodes elements_dll)
qed

lemma Resize_scenario_back:
  assumes run: "Resize alloc 5 (9 :: int) (h, empty_List) = Inr (True, s5)"
  shows "Size (snd s5) = 5 \<and>
      iterate (fst s5) (List_begin (snd s5)) = Some (Inr [9, 9, 9, 9, 9]) \<and>
      (\<exists>s2. Resize alloc' 2 w s5 = Inr (True, s2) \<and> Size (snd s2) = 2 \<and>
         nodes s2 = drop 3 (nodes s5) \<and>
         iterate (fst s2) (List_begin (snd s2)) = Some (Inr (drop 3 [9, 9, 9, 9, 9])))"
proof -
  have inv0: "list_inv (h, empty_List)"
    using dll_empty_List by (rule dll_list_inv)
  have el0: "elements (h, empty_List) = []"
    using dll_empty_List [of h] by (simp add: elements_dll)
  have sz0: "Size (snd (h, empty_List)) = 0"
    by (simp add: Size_def empty_List_def)
  have r5: "replicate 5 (9 :: int) = [9, 9, 9, 9, 9]"
    by (simp add: numeral_eq_Suc)
  from Resize_list_inv [OF inv0, of alloc 5 9] obtain ok s'
    where 1: "Resize alloc 5 9 (h, empty_List) = Inr (ok, s')" "list_inv s'"
      "ok \<longrightarrow> Size (snd s') = 5"
      "iterate (fst s') (List_begin (snd s')) =
         Some (Inr (if Size (snd (h, empty_List)) \<le> 5
                    then elements (h, empty_List) @
                         replicate (unat (Size (snd s')) - unat (Size (snd (h, empty_List)))) 9
                    else drop (unat (Size (snd (h, empty_List))) - unat (5 :: 16 word))
                           (elements (h, empty_List))))"
    by blast
  from 1(1) run have same: "ok" "s' = s5" by simp_all
  with 1 have inv5: "list_inv s5" and sz5: "Size (snd s5) = 5"
    by simp_all
  from 1(4) have it5: "iterate (fst s5) (List_begin (snd s5)) = Some (Inr [9, 9, 9, 9, 9])"
    unfolding same sz5 sz0 el0 by (simp add: r5)
  from inv5 have "iterate (fst s5) (List_begin (snd s5)) = Some (Inr (elements s5))"
    by (cases s5) (simp add: list_inv_dll iterate_dll elements_vals)
  with it5 have el5: "elements s5 = [9, 9, 9, 9, 9]"
    by simp
  have "(2 :: 16 word) \<le> Size (snd s5)"
    unfolding sz5 by simp
  from Resize_shrinks [OF inv5 this, of alloc' w] obtain s2
    where "Resize alloc' 2 w s5 = Inr (True, s2)" "Size (snd s2) = 2"
      "nodes s2 = drop (unat (Size (snd s5)) - unat (2 :: 16 word)) (nodes s5)"
      "iterate (fst s2) (List_begin (snd s2)) =
         Some (Inr (drop (unat (Size (snd s5)) - unat (2 :: 16 word)) (elements s5)))"
    by blast
  then have "Resize alloc' 2 w s5 = Inr (True, s2) \<and> Size (snd s2) = 2 \<and>
      nodes s2 = drop 3 (nodes s5) \<and>
      iterate (fst s2) (List_begin (snd s2)) = Some (Inr (drop 3 [9, 9, 9, 9, 9]))"
    unfolding sz5 el5 by simp
  with sz5 it5 show ?thesis
    by (intro conjI exI [of _ s2]) simp_all
qed

lemma list_12345_run:
  "\<exists>s. PushBack_seq
             [(pool_alloc [1, 2, 3, 4, 5], 1), (pool_alloc [1, 2, 3, 4, 5], 2),
              (pool_alloc [1, 2, 3, 4, 5], 3), (pool_alloc [1, 2, 3, 4, 5], 4),
              (pool_alloc [1, 2, 3, 4, 5], 5)]
             (fmempty :: int heap, empty_List) = Inr ([True, True, True, True, True], s)"
  by (simp add: PushBack_def Node_New_def detail_New_def pool_alloc_def
                empty_List_def set_next_def set_previous_def deref_def)

lemma list_12345_props:
  "list_inv list_12345" "elements list_12345 = [1, 2, 3, 4, 5]"
  "Size (snd list_12345) = 5"
proof -
  let ?cs = "[(pool_alloc [1, 2, 3, 4, 5], 1 :: int), (pool_alloc [1, 2, 3, 4, 5], 2),
              (pool_alloc [1, 2, 3, 4, 5], 3), (pool_alloc [1, 2, 3, 4, 5], 4),
              (pool_alloc [1, 2, 3, 4, 5], 5)]"
  from list_12345_run obtain s
    where run: "PushBack_seq ?cs (fmempty, empty_List) = Inr ([True, True, True, True, True], s)"
    by blast
  then have s: "list_12345 = s"
    by (simp add: list_12345_def)
  from PushBack_seq_dll [OF dll_empty_List, where h = "fmempty :: int heap" and cs = ?cs] run
  obtain h' l' bs where s': "s = (h', l')" and d: "dll h' l' bs"
    and len: "length bs = 5" and v: "vals h' bs = [1, 2, 3, 4, 5]"
    by auto
  from d show "list_inv list_12345"
    unfolding s s' by (rule dll_list_inv)
  from d v show "elements list_12345 = [1, 2, 3, 4, 5]"
    unfolding s s' by (simp add: elements_dll)
  from d len have "unat (size' l') = unat (5 :: 16 word)"
    by (simp add: dll_def)
  then show "Size (snd list_12345) = 5"
    unfolding s s' by (simp add: Size_def word_unat_eq_iff)
qed

lemma list_12345_to_2:
  "Resize no_memory 2 0 list_12345 = Inr (True, list_45)"
  "Size (snd list_45) = 2"
  "iterate (fst list_45) (List_begin (snd list_45)) = Some (Inr [4, 5])"
proof -
  have d3: "drop 3 [1, 2, 3, 4, 5 :: int] = [4, 5]"
    by (simp add: numeral_eq_Suc)
  have "(2 :: 16 word) \<le> Size (snd list_12345)"
    using list_12345_props(3) by simp
  from Resize_shrinks [OF list_12345_props(1) this, of no_memory 0] obtain s'
    where run: "Resize no_memory 2 0 list_12345 = Inr (True, s')" and sz: "Size (snd s') = 2"
      and it: "iterate (fst s') (List_begin (snd s')) =
        Some (Inr (drop (unat (Size (snd list_12345)) - unat (2 :: 16 word)) (elements list_12345)))"
    by blast
  from run have s': "list_45 = s'"
    by (simp add: list_45_def)
  from run show "Resize no_memory 2 0 list_12345 = Inr (True, list_45)"
    by (simp add: s')
  from sz show "Size (snd list_45) = 2"
    by (simp add: s')
  from it show "iterate (fst list_45) (List_begin (snd list_45)) = Some (Inr [4, 5])"
    by (simp add: s' list_12345_props d3)
qed

subsection \<open>\<open>Insert\<close> and \<open>Remove\<close>\<close>

text \<open>
  Both operations relink the neighbours of the position and never write \<open>first_\<close> or
  \<open>last_\<close>. With a predecessor (and, for \<open>Remove\<close>, a successor) they splice; at the head,
  and for \<open>Remove\<close> at the tail, the missing neighbour is the null pointer and is
  dereferenced.
\<close>

lemma Insert_end: "Insert alloc List_end v (h, l) = Inr (False, h, l)"
  by (simp add: Insert_def List_end_def Iterator_eq_def)

lemma Insert_no_memory:
  "detail_New alloc h = nullptr \<Longrightarrow> Insert alloc i v (h, l) = Inr (False, h, l)"
  by (simp add: Insert_def Node_New_fail)

lemma Insert_head:
  assumes inv: "dll h l (b # cs)" and new: "detail_New alloc h \<noteq> nullptr"
  shows "Insert alloc \<lparr>node' = b\<rparr> v (h, l) = Inl NullDereference"
proof -
  define a where "a = detail_New alloc h"
  from new have a: "a \<noteq> nullptr" by (simp add: a_def)
  then have fresh: "fmlookup h a = None"
    using detail_New_fresh [of alloc h a] by (simp add: a_def)
  from inv obtain nb where nb: "b \<noteq> nullptr" "fmlookup h b = Some nb" "previous nb = nullptr"
    by (auto simp: dll_def path_snoc)
  with fresh have "b \<noteq> a" by auto
  with a nb show ?thesis
    using Node_New_ok [OF a_def [symmetric] a, of v]
    by (simp add: Insert_def Iterator_eq_def Node_Get_def Address_def deref_def)
qed

lemma Insert_inner:
  assumes inv: "dll h l (as @ p # b # cs)" and new: "detail_New alloc h = a" and a: "a \<noteq> nullptr"
  shows "\<exists>h' l'. Insert alloc \<lparr>node' = b\<rparr> v (h, l) = Inr (True, h', l') \<and>
           dll h' l' (as @ p # a # b # cs) \<and>
           vals h' (as @ p # a # b # cs) = vals h (as @ [p]) @ v # vals h (b # cs) \<and>
           frame h (as @ p # b # cs) h' (as @ p # a # b # cs)"
proof -
  let ?xs = "as @ p # b # cs"
  from new a have fresh: "fmlookup h a = None" by (rule detail_New_fresh)
  from inv a fresh have sz: "unat (size' l + 1) = Suc (length ?xs)" and notin: "a \<notin> set ?xs"
    by (rule dll_room)+
  from inv notin have d: "distinct ?xs" "a \<noteq> p" "a \<noteq> b" "a \<notin> set as" "a \<notin> set cs"
    "p \<noteq> b" "p \<notin> set as" "p \<notin> set cs" "b \<notin> set as" "b \<notin> set cs"
    by (auto simp: dll_def)
  from inv have "path next h (first' l) (as @ p # b # cs) nullptr"
    by (simp add: dll_def)
  then obtain np nb where pn1: "path next h (first' l) as p"
    and np: "p \<noteq> nullptr" "fmlookup h p = Some np" "next np = b"
    and nb: "b \<noteq> nullptr" "fmlookup h b = Some nb"
    and pn2: "path next h (next nb) cs nullptr"
    by (auto simp: path_append split: option.splits)
  from inv have "path previous h (last' l) (rev cs @ b # p # rev as) nullptr"
    by (simp add: dll_def)
  with nb np have pp1: "path previous h (last' l) (rev cs) b" and bp: "previous nb = p"
    and pp2: "path previous h (previous np) (rev as) nullptr"
    by (auto simp: path_append split: option.splits)
  let ?n = "\<lparr>previous = nullptr, next = nullptr, data = v\<rparr>"
  let ?h1 = "fmupd a ?n h"
  let ?h2 = "fmupd p (np\<lparr>next := a\<rparr>) ?h1"
  let ?h3 = "fmupd a (?n\<lparr>previous := p\<rparr>) ?h2"
  let ?h4 = "fmupd a (?n\<lparr>previous := p, next := b\<rparr>) ?h3"
  let ?h5 = "fmupd b (nb\<lparr>previous := a\<rparr>) ?h4"
  let ?l' = "l\<lparr>size' := size' l + 1\<rparr>"
  have new': "Node_New alloc v h = (a, ?h1)"
    using new a by (rule Node_New_ok)
  have run: "Insert alloc \<lparr>node' = b\<rparr> v (h, l) = Inr (True, ?h5, ?l')"
    using a d np nb bp
    by (simp add: Insert_def new' Iterator_eq_def Node_Get_def Address_def deref_def
                  set_next_def set_previous_def)
  have "path next ?h5 (first' l) as p = path next h (first' l) as p"
    using d by (intro path_cong) auto
  moreover have "path next ?h5 (next nb) cs nullptr = path next h (next nb) cs nullptr"
    using d by (intro path_cong) auto
  ultimately have pn': "path next ?h5 (first' l) (as @ p # a # b # cs) nullptr"
    using pn1 pn2 a d np nb by (simp add: path_append)
  have "path previous ?h5 (last' l) (rev cs) b = path previous h (last' l) (rev cs) b"
    using d by (intro path_cong) auto
  moreover have "path previous ?h5 (previous np) (rev as) nullptr =
      path previous h (previous np) (rev as) nullptr"
    using d by (intro path_cong) auto
  ultimately have pp': "path previous ?h5 (last' l) (rev cs @ b # a # p # rev as) nullptr"
    using pp1 pp2 a d np nb by (simp add: path_append)
  have "dll ?h5 ?l' (as @ p # a # b # cs)"
    using d pn' pp' sz by (auto simp: dll_def)
  moreover have "vals ?h5 as = vals h as" "vals ?h5 cs = vals h cs"
    using d by (auto intro!: vals_cong)
  then have "vals ?h5 (as @ p # a # b # cs) = vals h (as @ [p]) @ v # vals h (b # cs)"
    using d np nb by simp
  moreover have "frame h ?xs ?h5 (as @ p # a # b # cs)"
    using fresh by (auto simp: frame_def)
  ultimately show ?thesis
    using run by blast
qed

lemma Remove_end: "Remove List_end (h, l) = Inr (False, h, l)"
  by (simp add: Remove_def List_end_def Iterator_eq_def)

lemma Remove_head:
  assumes inv: "dll h l (b # cs)"
  shows "Remove \<lparr>node' = b\<rparr> (h, l) = Inl NullDereference"
proof -
  from inv obtain nb where "b \<noteq> nullptr" "fmlookup h b = Some nb" "previous nb = nullptr"
    by (auto simp: dll_def path_snoc)
  then show ?thesis
    by (simp add: Remove_def Iterator_eq_def Node_Get_def Address_def deref_def set_next_def)
qed

lemma Remove_tail:
  assumes inv: "dll h l (as @ [p, b])"
  shows "Remove \<lparr>node' = b\<rparr> (h, l) = Inl NullDereference"
proof -
  from inv have "path next h (first' l) (as @ [p, b]) nullptr"
    by (simp add: dll_def)
  then obtain np nb where np: "p \<noteq> nullptr" "fmlookup h p = Some np"
    and nb: "b \<noteq> nullptr" "fmlookup h b = Some nb" "next nb = nullptr"
    by (auto simp: path_append split: option.splits)
  from inv have "path previous h (last' l) (b # p # rev as) nullptr"
    by (simp add: dll_def)
  with nb have "previous nb = p"
    by (auto split: option.splits)
  with np nb show ?thesis
    by (simp add: Remove_def Iterator_eq_def Node_Get_def Address_def deref_def
                  set_next_def set_previous_def)
qed

lemma Remove_inner:
  assumes inv: "dll h l (as @ p # b # c # cs)"
  shows "\<exists>h' l'. Remove \<lparr>node' = b\<rparr> (h, l) = Inr (True, h', l') \<and>
           dll h' l' (as @ p # c # cs) \<and>
           vals h' (as @ p # c # cs) = vals h (as @ [p]) @ vals h (c # cs) \<and>
           frame h (as @ p # b # c # cs) h' (as @ p # c # cs) \<and>
           fmlookup h' b = None"
proof -
  let ?xs = "as @ p # b # c # cs"
  from inv have d: "distinct ?xs" "p \<noteq> b" "p \<noteq> c" "b \<noteq> c" "p \<notin> set as" "p \<notin> set cs"
    "b \<notin> set as" "b \<notin> set cs" "c \<notin> set as" "c \<notin> set cs"
    by (auto simp: dll_def)
  from inv have "path next h (first' l) (as @ p # b # c # cs) nullptr"
    by (simp add: dll_def)
  then obtain np nb nc where pn1: "path next h (first' l) as p"
    and np: "p \<noteq> nullptr" "fmlookup h p = Some np" "next np = b"
    and nb: "b \<noteq> nullptr" "fmlookup h b = Some nb" "next nb = c"
    and nc: "c \<noteq> nullptr" "fmlookup h c = Some nc"
    and pn2: "path next h (next nc) cs nullptr"
    by (auto simp: path_append split: option.splits)
  from inv have "path previous h (last' l) (rev cs @ c # b # p # rev as) nullptr"
    by (simp add: dll_def)
  with nb np nc have pp1: "path previous h (last' l) (rev cs) c" and cb: "previous nc = b"
    and bp: "previous nb = p" and pp2: "path previous h (previous np) (rev as) nullptr"
    by (auto simp: path_append split: option.splits)
  let ?h1 = "fmupd p (np\<lparr>next := c\<rparr>) h"
  let ?h2 = "fmupd c (nc\<lparr>previous := p\<rparr>) ?h1"
  let ?h3 = "fmdrop b ?h2"
  let ?l' = "l\<lparr>size' := size' l - 1\<rparr>"
  have run: "Remove \<lparr>node' = b\<rparr> (h, l) = Inr (True, ?h3, ?l')"
    using d np nb nc bp
    by (simp add: Remove_def Iterator_eq_def Node_Get_def Address_def deref_def
                  set_next_def set_previous_def Node_Delete_def detail_Delete_def)
  have "path next ?h3 (first' l) as p = path next h (first' l) as p"
    using d by (intro path_cong) auto
  moreover have "path next ?h3 (next nc) cs nullptr = path next h (next nc) cs nullptr"
    using d by (intro path_cong) auto
  ultimately have pn': "path next ?h3 (first' l) (as @ p # c # cs) nullptr"
    using pn1 pn2 d np nc by (simp add: path_append)
  have "path previous ?h3 (last' l) (rev cs) c = path previous h (last' l) (rev cs) c"
    using d by (intro path_cong) auto
  moreover have "path previous ?h3 (previous np) (rev as) nullptr =
      path previous h (previous np) (rev as) nullptr"
    using d by (intro path_cong) auto
  ultimately have pp': "path previous ?h3 (last' l) (rev cs @ c # p # rev as) nullptr"
    using pp1 pp2 d np nc by (simp add: path_append)
  have "unat (size' l - 1) = length ?xs - 1"
    using size_dec [OF inv] by simp
  then have "dll ?h3 ?l' (as @ p # c # cs)"
    using d pn' pp' by (auto simp: dll_def)
  moreover have "vals ?h3 as = vals h as" "vals ?h3 cs = vals h cs"
    using d by (auto intro!: vals_cong)
  then have "vals ?h3 (as @ p # c # cs) = vals h (as @ [p]) @ vals h (c # cs)"
    using d np nc by simp
  moreover have "frame h ?xs ?h3 (as @ p # c # cs)"
    by (auto simp: frame_def)
  ultimately show ?thesis
    using run by auto
qed

subsection \<open>The invariant of the specification\<close>

lemma advance_path:
  "path next h p as q \<Longrightarrow> advance h (length as) \<lparr>node' = p\<rparr> = Inr \<lparr>node' = q\<rparr>"
  by (induction as arbitrary: p) (auto simp: Iterator_inc_def deref_def split: option.splits)

lemma retreat_path:
  "path previous h p as q \<Longrightarrow> retreat h (length as) \<lparr>node' = p\<rparr> = Inr \<lparr>node' = q\<rparr>"
  by (induction as arbitrary: p) (auto simp: Iterator_dec_def deref_def split: option.splits)

lemma dll_List_invariant:
  assumes inv: "dll h l as"
  shows "List_invariant (h, l)"
proof (cases as)
  case Nil
  with inv show ?thesis
    by (simp add: dll_empty List_invariant_def)
next
  case (Cons a cs)
  then have "as \<noteq> []" by simp
  then obtain bs b where snoc: "as = bs @ [b]"
    by (cases as rule: rev_cases) simp_all
  from inv Cons have first: "first' l = a" and "path previous h (last' l) (rev cs @ [a]) nullptr"
    using dll_ends [OF inv] by (auto simp: dll_def)
  then obtain na where na: "a \<noteq> nullptr" "fmlookup h a = Some na" "previous na = nullptr"
    and bwd: "path previous h (last' l) (rev cs) a"
    by (auto simp: path_snoc)
  from inv snoc have last: "last' l = b" and "path next h (first' l) (bs @ [b]) nullptr"
    using dll_ends [OF inv] by (auto simp: dll_def)
  then obtain nb where nb: "b \<noteq> nullptr" "fmlookup h b = Some nb" "next nb = nullptr"
    and forth: "path next h (first' l) bs b"
    by (auto simp: path_snoc)
  from inv Cons have sz: "unat (size' l - 1) = length as - 1" and pos: "size' l \<noteq> 0"
    using size_dec [OF inv] by (auto simp: dll_def)
  from pos have one: "1 \<le> size' l"
    by (simp add: word_le_nat_alt unat_gt_0 Suc_leI)
  have "Iterator_add h (size' l - 1) (List_begin l) = Inr (List_last l)"
    using advance_path [OF forth] sz snoc last
    by (simp add: Iterator_add_def List_begin_def List_last_def)
  moreover have "Iterator_sub h (size' l - 1) (List_last l) = Inr (List_begin l)"
    using retreat_path [OF bwd] sz Cons first
    by (simp add: Iterator_sub_def List_begin_def List_last_def)
  ultimately show ?thesis
    using na nb first last pos one
    by (simp add: List_invariant_def deref_def)
qed

lemma list_inv_List_invariant: "list_inv s \<Longrightarrow> List_invariant s"
  by (cases s) (auto dest: list_inv_dll dll_List_invariant)

text \<open>Every operation that returns leaves a well-formed list well-formed.\<close>

lemma position_cases:
  assumes "p \<in> set as"
  obtains (head) cs where "as = p # cs"
    | (inner) bs q cs where "as = bs @ q # p # cs"
proof (cases as)
  case Nil
  with assms show ?thesis by simp
next
  case (Cons a cs)
  show ?thesis
  proof (cases "p = a")
    case True
    with Cons show ?thesis by (rule_tac head) simp
  next
    case False
    with assms Cons have "p \<in> set cs" by simp
    then obtain us vs where "cs = us @ p # vs"
      by (auto simp: in_set_conv_decomp)
    with Cons have "as = butlast (a # us) @ last (a # us) # p # vs"
      by simp
    then show ?thesis by (rule inner)
  qed
qed

lemma Insert_returns:
  assumes inv: "dll h l as" and pos: "node' i = nullptr \<or> node' i \<in> set as"
    and run: "Insert alloc i v (h, l) = Inr (ok, h', l')"
  shows "\<exists>as'. dll h' l' as' \<and> frame h as h' as'"
proof (cases "node' i = nullptr \<or> detail_New alloc h = nullptr")
  case True
  then have "Insert alloc i v (h, l) = Inr (False, h, l)"
    by (auto simp: Insert_no_memory) (simp add: Insert_def Iterator_eq_def)
  with run inv show ?thesis
    using frame_refl by auto
next
  case False
  with pos have mem: "node' i \<in> set as" and new: "detail_New alloc h \<noteq> nullptr"
    by auto
  from run have i: "Insert alloc \<lparr>node' = node' i\<rparr> v (h, l) = Inr (ok, h', l')"
    by (cases i) simp
  from mem show ?thesis
  proof (cases rule: position_cases)
    case (head cs)
    with inv new have "Insert alloc \<lparr>node' = node' i\<rparr> v (h, l) = Inl NullDereference"
      by (intro Insert_head) auto
    with i show ?thesis by simp
  next
    case (inner bs q cs)
    with Insert_inner [of h l bs q "node' i" cs alloc "detail_New alloc h" v] inv new i
    show ?thesis
      by (metis Inr_inject Pair_inject)
  qed
qed

lemma Remove_returns:
  assumes inv: "dll h l as" and pos: "node' i = nullptr \<or> node' i \<in> set as"
    and run: "Remove i (h, l) = Inr (ok, h', l')"
  shows "\<exists>as'. dll h' l' as' \<and> frame h as h' as'"
proof (cases "node' i = nullptr")
  case True
  then have "Remove i (h, l) = Inr (False, h, l)"
    by (simp add: Remove_def Iterator_eq_def)
  with run inv show ?thesis
    using frame_refl by auto
next
  case False
  with pos have mem: "node' i \<in> set as"
    by auto
  from run have i: "Remove \<lparr>node' = node' i\<rparr> (h, l) = Inr (ok, h', l')"
    by (cases i) simp
  from mem show ?thesis
  proof (cases rule: position_cases)
    case (head cs)
    with inv have "Remove \<lparr>node' = node' i\<rparr> (h, l) = Inl NullDereference"
      by (intro Remove_head) auto
    with i show ?thesis by simp
  next
    case (inner bs q cs)
    show ?thesis
    proof (cases cs)
      case Nil
      with inner inv have "Remove \<lparr>node' = node' i\<rparr> (h, l) = Inl NullDereference"
        by (intro Remove_tail [of h l bs q]) auto
      with i show ?thesis by simp
    next
      case (Cons c ds)
      with Remove_inner [of h l bs q "node' i" c ds] inv inner i
      show ?thesis
        by (metis Inr_inject Pair_inject)
    qed
  qed
qed

lemma list_inv_preserved:
  assumes "list_inv s"
  shows "PushFront alloc v s = Inr (ok, s') \<Longrightarrow> list_inv s'"
    "PushBack alloc v s = Inr (ok, s') \<Longrightarrow> list_inv s'"
    "PopFront s = Inr s' \<Longrightarrow> list_inv s'"
    "PopBack s = Inr s' \<Longrightarrow> list_inv s'"
    "Clear s = Inr s' \<Longrightarrow> list_inv s'"
    "Resize alloc n v s = Inr (ok, s') \<Longrightarrow> list_inv s'"
    "node' i = nullptr \<or> node' i \<in> set (nodes s) \<Longrightarrow> Insert alloc i v s = Inr (ok, s') \<Longrightarrow> list_inv s'"
    "node' i = nullptr \<or> node' i \<in> set (nodes s) \<Longrightarrow> Remove i s = Inr (ok, s') \<Longrightarrow> list_inv s'"
proof -
  obtain h l where s: "s = (h, l)" by (cases s)
  obtain h' l' where s': "s' = (h', l')" by (cases s')
  define as where "as = nodes (h, l)"
  from assms s have inv: "dll h l as"
    by (simp add: as_def list_inv_dll)
  show "PushFront alloc v s = Inr (ok, s') \<Longrightarrow> list_inv s'"
    using PushFront_fail [of alloc h v l] PushFront_frame [OF inv, of alloc "detail_New alloc h" v] inv
    unfolding s by (cases "detail_New alloc h = nullptr") (auto intro: dll_list_inv)
  show "PushBack alloc v s = Inr (ok, s') \<Longrightarrow> list_inv s'"
    using PushBack_fail [of alloc h v l] PushBack_frame [OF inv, of alloc "detail_New alloc h" v] inv
    unfolding s by (cases "detail_New alloc h = nullptr") (auto intro: dll_list_inv)
  show "PopFront s = Inr s' \<Longrightarrow> list_inv s'"
    using PopFront_frame [OF inv] unfolding s by (auto intro: dll_list_inv)
  show "PopBack s = Inr s' \<Longrightarrow> list_inv s'"
    using PopBack_frame [OF inv] unfolding s by (auto intro: dll_list_inv)
  show "Clear s = Inr s' \<Longrightarrow> list_inv s'"
    using Clear_frame [OF inv] unfolding s by (auto intro: dll_list_inv)
  show "Resize alloc n v s = Inr (ok, s') \<Longrightarrow> list_inv s'"
    using Resize_dll [OF inv, of alloc n v] unfolding s by (auto intro: dll_list_inv)
  show "node' i = nullptr \<or> node' i \<in> set (nodes s) \<Longrightarrow> Insert alloc i v s = Inr (ok, s') \<Longrightarrow> list_inv s'"
    using Insert_returns [OF inv, of i alloc v ok h' l'] unfolding s s' as_def
    by (auto intro: dll_list_inv)
  show "node' i = nullptr \<or> node' i \<in> set (nodes s) \<Longrightarrow> Remove i s = Inr (ok, s') \<Longrightarrow> list_inv s'"
    using Remove_returns [OF inv, of i ok h' l'] unfolding s s' as_def
    by (auto intro: dll_list_inv)
qed

lemma list_123_dll: "dll (fst list_123) (snd list_123) [1, 2, 3]"
  by (simp add: list_123_eq dll_def)

lemma list_123_nodes: "nodes list_123 = [1, 2, 3]"
  using dll_nodes [OF list_123_dll] by simp

lemma list_123_elements: "elements list_123 = [1, 2, 3]"
  using elements_dll [OF list_123_dll] by (simp add: list_123_eq)

lemma list_123_begin: "List_begin (snd list_123) = \<lparr>node' = 1\<rparr>"
  and list_123_last: "List_last (snd list_123) = \<lparr>node' = 3\<rparr>"
  by (simp_all add: list_123_eq List_begin_def List_last_def)

lemma list_123_pool: "detail_New (pool_alloc [1, 2, 3, 4]) (fst list_123) = 4"
  by (simp add: list_123_eq detail_New_def pool_alloc_def)

lemma Remove_scenario:
  "\<exists>s'. Remove \<lparr>node' = 2\<rparr> list_123 = Inr (True, s') \<and> Size (snd s') = 2 \<and>
      iterate (fst s') (List_begin (snd s')) = Some (Inr [1, 3])"
proof -
  from Remove_inner [of "fst list_123" "snd list_123" "[]" 1 2 3 "[]"] list_123_dll
  obtain h' l' where "Remove \<lparr>node' = 2\<rparr> list_123 = Inr (True, h', l')"
    and inv: "dll h' l' [1, 3]" and "vals h' [1, 3] = vals (fst list_123) [1] @ vals (fst list_123) [3]"
    by auto
  moreover from this have "vals h' [1, 3] = [1, 3]"
    by (simp add: list_123_eq)
  moreover from inv have "unat (size' l') = 2"
    by (simp add: dll_def)
  then have "size' l' = 2"
    by (simp add: word_unat_eq_iff)
  ultimately show ?thesis
    using iterate_dll [OF inv] by (simp add: Size_def)
qed

subsection \<open>Copies and mutations\<close>

















section \<open>The claims\<close>

text \<open>
  Claim C1. The invariant of the specification holds for the list 1, 2, 3 built by
  \<open>PushBack\<close>, and the operations \<open>Remove\<close> at \<open>begin()\<close>, \<open>Remove\<close> at \<open>last()\<close> and
  \<open>Insert\<close> at \<open>begin()\<close> (with memory available) all dereference the null pointer there:
  they have no state to return in which the invariant could hold. (That every operation
  which returns keeps a well-formed list well-formed is \<open>list_inv_preserved\<close>, and a
  well-formed list has the invariant by \<open>list_inv_List_invariant\<close>.)
\<close>

theorem invariant_lost_at_list_ends:
  "List_invariant list_123 \<and>
   Remove (List_begin (snd list_123)) list_123 = Inl NullDereference \<and>
   Remove (List_last (snd list_123)) list_123 = Inl NullDereference \<and>
   Insert (pool_alloc [1, 2, 3, 4]) (List_begin (snd list_123)) 0 list_123 = Inl NullDereference"
proof -
  have "List_invariant list_123"
    using list_123_inv by (rule list_inv_List_invariant)
  moreover have "Remove \<lparr>node' = 1\<rparr> list_123 = Inl NullDereference"
    using Remove_head [of "fst list_123" "snd list_123" 1 "[2, 3]"] list_123_dll by simp
  moreover have "Remove \<lparr>node' = 3\<rparr> list_123 = Inl NullDereference"
    using Remove_tail [of "fst list_123" "snd list_123" "[1]" 2 3] list_123_dll by simp
  moreover have "Insert (pool_alloc [1, 2, 3, 4]) \<lparr>node' = 1\<rparr> 0 list_123 = Inl NullDereference"
    using Insert_head [of "fst list_123" "snd list_123" 1 "[2, 3]" "pool_alloc [1, 2, 3, 4]" 0]
      list_123_dll list_123_pool by simp
  ultimately show ?thesis
    by (simp add: list_123_begin list_123_last)
qed

theorem invariant_lost_at_list_ends_witness:
  "1 \<le> size' (snd list_123) \<and>
   Iterator_add (fst list_123) (size' (snd list_123) - 1) (List_begin (snd list_123)) =
     Inr (List_last (snd list_123)) \<and>
   Iterator_sub (fst list_123) (size' (snd list_123) - 1) (List_last (snd list_123)) =
     Inr (List_begin (snd list_123)) \<and>
   Remove (List_begin (snd list_123)) list_123 = Inl NullDereference"
proof -
  have one: "1 \<le> size' (snd list_123)"
    by (simp add: list_123_eq)
  with invariant_lost_at_list_ends show ?thesis
    by (simp add: List_invariant_def case_prod_beta)
qed




text \<open>
  Claim C4. On the list 1, 2, 3 the iterator \<open>begin()\<close> references a node of the list and
  \<open>detail::New\<close> returns a fresh block, and \<open>Insert\<close> at \<open>begin()\<close> dereferences the null
  pointer: the predecessor of the head is null, and \<open>Insert\<close> reads its \<open>next\<close> link.
  (\<open>Insert_end\<close>, \<open>Insert_no_memory\<close> and \<open>Insert_inner\<close> cover the sentinel, the failed
  allocation and every position that has a predecessor.)
\<close>

theorem Insert_before_head_fails:
  "list_inv list_123 \<and> node' (List_begin (snd list_123)) \<in> set (nodes list_123) \<and>
   detail_New (pool_alloc [1, 2, 3, 4]) (fst list_123) = 4 \<and>
   Insert (pool_alloc [1, 2, 3, 4]) (List_begin (snd list_123)) 0 list_123 = Inl NullDereference"
  by (simp add: list_123_inv list_123_nodes list_123_begin list_123_pool)
     (simp add: list_123_eq Insert_def Node_New_def detail_New_def pool_alloc_def
                Iterator_eq_def Node_Get_def Address_def deref_def)

text \<open>
  Claim C5. On the list 1, 2, 3 the iterators \<open>begin()\<close> and \<open>last()\<close> reference nodes of the
  list, and \<open>Remove\<close> dereferences the null pointer at both: at the head it writes the
  \<open>next\<close> link of the null predecessor, at the tail the \<open>previous\<close> link of the null
  successor. (\<open>Remove_end\<close> covers the sentinel, \<open>Remove_inner\<close> every position between
  two nodes, and \<open>Remove_scenario\<close> the removal of the value 2.)
\<close>

theorem Remove_at_ends_fails:
  "list_inv list_123 \<and> iterate (fst list_123) (List_begin (snd list_123)) = Some (Inr [1, 2, 3]) \<and>
   node' (List_begin (snd list_123)) \<in> set (nodes list_123) \<and>
   node' (List_last (snd list_123)) \<in> set (nodes list_123) \<and>
   Remove (List_begin (snd list_123)) list_123 = Inl NullDereference \<and>
   Remove (List_last (snd list_123)) list_123 = Inl NullDereference"
proof -
  have "iterate (fst list_123) (List_begin (snd list_123)) = Some (Inr [1, 2, 3])"
    using iterate_dll [OF list_123_dll] by (simp add: list_123_eq)
  moreover have "Remove \<lparr>node' = 1\<rparr> list_123 = Inl NullDereference"
    by (simp add: list_123_eq Remove_def Iterator_eq_def Node_Get_def Address_def deref_def
                  set_next_def)
  moreover have "Remove \<lparr>node' = 3\<rparr> list_123 = Inl NullDereference"
    by (simp add: list_123_eq Remove_def Iterator_eq_def Node_Get_def Address_def deref_def
                  set_next_def set_previous_def)
  ultimately show ?thesis
    by (simp add: list_123_inv list_123_nodes list_123_begin list_123_last)
qed

text \<open>
  Claim C7. On a well-formed list, a \<open>PushBack\<close> that succeeds followed by \<open>PopBack\<close> gives
  back the list object as it was: the same size, and a walk from \<open>begin()\<close> to \<open>end()\<close>
  yields the same values as before the push.
\<close>

theorem PushBack_PopBack_roundtrip:
  assumes "list_inv s" and "PushBack alloc x s = Inr (True, s')"
  shows "\<exists>s''. PopBack s' = Inr s'' \<and> list_inv s'' \<and> snd s'' = snd s \<and>
           Size (snd s'') = Size (snd s) \<and>
           iterate (fst s'') (List_begin (snd s'')) = Some (Inr (elements s)) \<and>
           iterate (fst s) (List_begin (snd s)) = Some (Inr (elements s))"
proof -
  obtain h l where s: "s = (h, l)" by (cases s)
  define as where "as = nodes (h, l)"
  from assms(1) s have inv: "dll h l as"
    by (simp add: as_def list_inv_dll)
  define a where "a = detail_New alloc h"
  have a: "a \<noteq> nullptr"
    using assms(2) s PushBack_fail [of alloc h x l] by (auto simp: a_def)
  from PushBack_dll [OF inv a_def [symmetric] a, of x] assms(2) s
  obtain h' l' where s': "s' = (h', l')" and inv': "dll h' l' (as @ [a])"
    and v': "vals h' (as @ [a]) = vals h as @ [x]"
    by auto
  from PopBack_dll [OF inv'] obtain h'' l'' where pop: "PopBack (h', l') = Inr (h'', l'')"
    and inv'': "dll h'' l'' as" and v'': "vals h'' as = butlast (vals h' (as @ [a]))"
    by auto
  have "l'' = l"
    using inv'' inv by (rule dll_same_List)
  moreover have "vals h'' as = vals h as"
    using v' v'' by simp
  ultimately show ?thesis
    using pop inv inv'' s s' iterate_dll [OF inv] iterate_dll [OF inv'']
    by (simp add: elements_dll dll_list_inv)
qed

theorem PushBack_PopBack_roundtrip_witness:
  "list_inv list_7 \<and>
   (case PushBack (pool_alloc [1, 2]) 5 list_7 of
      Inl e \<Rightarrow> False
    | Inr (ok, s') \<Rightarrow> ok \<and>
        (case PopBack s' of
           Inl e \<Rightarrow> False
         | Inr s'' \<Rightarrow> Size (snd s'') = Size (snd list_7) \<and>
             iterate (fst s'') (List_begin (snd s'')) = Some (Inr [7]) \<and>
             iterate (fst list_7) (List_begin (snd list_7)) = Some (Inr [7])))"
proof -
  obtain s' where push: "PushBack (pool_alloc [1, 2]) 5 list_7 = Inr (True, s')"
    by (simp add: list_7_eq PushBack_def Node_New_def detail_New_def pool_alloc_def
                  set_next_def set_previous_def deref_def)
  have "elements list_7 = [7]"
    by (simp add: list_7_eq elements_def nodes_def vals_def)
  with PushBack_PopBack_roundtrip [OF list_7_inv push] list_7_inv push show ?thesis
    by auto
qed

text \<open>
  Claim C8. \<open>PopFront\<close> and \<open>PopBack\<close> on the empty list return without an error and leave
  the heap and the empty list as they are, so the size stays 0; whenever the size is at
  most 1, either of them is \<open>Clear\<close>.
\<close>

theorem pop_on_empty_list:
  "PopFront (h, empty_List) = Inr (h, empty_List) \<and>
   PopBack (h, empty_List) = Inr (h, empty_List) \<and>
   Size empty_List = 0 \<and> Empty empty_List \<and>
   (size' l \<le> 1 \<longrightarrow> PopFront (h, l) = Clear (h, l) \<and> PopBack (h, l) = Clear (h, l))"
proof -
  have "Clear (h, empty_List) = Inr (h, empty_List)"
    using Clear_dll [OF dll_empty_List, of h] by simp
  then show ?thesis
    by (simp add: PopFront_def PopBack_def Size_def Empty_def empty_List_def)
qed

theorem pop_on_empty_list_witness:
  "size' empty_List \<le> 1 \<and>
   PopFront (fmempty :: int heap, empty_List) = Clear (fmempty, empty_List) \<and>
   PopBack (fmempty :: int heap, empty_List) = Clear (fmempty, empty_List) \<and>
   PopFront (fmempty :: int heap, empty_List) = Inr (fmempty, empty_List)"
proof -
  have "size' empty_List \<le> 1"
    by (simp add: empty_List_def)
  with pop_on_empty_list [of "fmempty :: int heap" empty_List] show ?thesis
    by blast
qed

text \<open>
  Claim C9. When \<open>detail::New\<close> returns the null pointer, \<open>PushFront\<close> and \<open>PushBack\<close>
  return false and the heap and the list object are what they were before the call. On a
  well-formed list they fail in no other case: when the allocation succeeds, they return
  true.
\<close>

theorem push_fails_only_without_memory:
  "(detail_New alloc h = nullptr \<longrightarrow>
      PushFront alloc v (h, l) = Inr (False, h, l) \<and>
      PushBack alloc v (h, l) = Inr (False, h, l)) \<and>
   (list_inv (h, l) \<longrightarrow> detail_New alloc h \<noteq> nullptr \<longrightarrow>
      (\<exists>s'. PushFront alloc v (h, l) = Inr (True, s')) \<and>
      (\<exists>s'. PushBack alloc v (h, l) = Inr (True, s')))"
proof (intro conjI impI)
  assume "list_inv (h, l)" and "detail_New alloc h \<noteq> nullptr"
  then show "\<exists>s'. PushFront alloc v (h, l) = Inr (True, s')"
    using PushFront_dll [OF list_inv_dll, of h l alloc "detail_New alloc h" v] by auto
next
  assume "list_inv (h, l)" and "detail_New alloc h \<noteq> nullptr"
  then show "\<exists>s'. PushBack alloc v (h, l) = Inr (True, s')"
    using PushBack_dll [OF list_inv_dll, of h l alloc "detail_New alloc h" v] by auto
qed (simp_all add: PushFront_fail PushBack_fail)

theorem push_fails_only_without_memory_witness:
  "detail_New no_memory (fst list_7) = nullptr \<and>
   PushFront no_memory 5 list_7 = Inr (False, list_7) \<and>
   PushBack no_memory 5 list_7 = Inr (False, list_7) \<and>
   list_inv list_7 \<and> detail_New (pool_alloc [1, 2]) (fst list_7) \<noteq> nullptr \<and>
   (\<exists>s'. PushFront (pool_alloc [1, 2]) 5 list_7 = Inr (True, s')) \<and>
   (\<exists>s'. PushBack (pool_alloc [1, 2]) 5 list_7 = Inr (True, s'))"
proof -
  have none: "detail_New no_memory (fst list_7) = nullptr"
    by (simp add: detail_New_def no_memory_def list_7_eq)
  have some: "detail_New (pool_alloc [1, 2]) (fst list_7) \<noteq> nullptr"
    by (simp add: detail_New_def pool_alloc_def list_7_eq)
  show ?thesis
    using none some list_7_inv
      push_fails_only_without_memory [of no_memory "fst list_7" 5 "snd list_7"]
      push_fails_only_without_memory [of "pool_alloc [1, 2]" "fst list_7" 5 "snd list_7"]
    by simp
qed

text \<open>
  Claim C10. Incrementing an iterator that holds the end sentinel reads through the null
  pointer, and so does \<open>+=\<close> with a count other than 0. One step from the last node of a
  well-formed list gives the end sentinel, where the next step fails. An increment returns
  exactly when the iterator points at a live node.
\<close>

theorem advancing_end_iterator:
  "Iterator_inc h List_end = Inl NullDereference \<and>
   (num_increments \<noteq> 0 \<longrightarrow> Iterator_add h num_increments List_end = Inl NullDereference) \<and>
   (list_inv (h, l) \<longrightarrow> size' l \<noteq> 0 \<longrightarrow> Iterator_inc h (List_last l) = Inr List_end) \<and>
   ((\<exists>i'. Iterator_inc h i = Inr i') = (node' i \<noteq> nullptr \<and> fmlookup h (node' i) \<noteq> None))"
proof (intro conjI impI)
  show inc: "Iterator_inc h List_end = Inl NullDereference"
    by (simp add: Iterator_inc_def List_end_def deref_def)
  show "Iterator_add h num_increments List_end = Inl NullDereference" if "num_increments \<noteq> 0"
  proof -
    from that obtain k where "unat num_increments = Suc k"
      by (metis not0_implies_Suc unat_eq_0)
    then show ?thesis
      using inc by (simp add: Iterator_add_def)
  qed
  show "Iterator_inc h (List_last l) = Inr List_end" if "list_inv (h, l)" and "size' l \<noteq> 0"
  proof -
    define as where "as = nodes (h, l)"
    from that have inv: "dll h l as" and "as \<noteq> []"
      by (auto simp: as_def list_inv_dll dll_empty dest!: list_inv_dll)
    then obtain bs b where as: "as = bs @ [b]"
      by (cases as rule: rev_cases) auto
    with inv obtain nb where "last' l = b" "b \<noteq> nullptr" "fmlookup h b = Some nb" "next nb = nullptr"
      using dll_ends [OF inv] by (auto simp: dll_def path_snoc)
    then show ?thesis
      by (simp add: Iterator_inc_def List_last_def List_end_def deref_def)
  qed
  show "(\<exists>i'. Iterator_inc h i = Inr i') = (node' i \<noteq> nullptr \<and> fmlookup h (node' i) \<noteq> None)"
    by (auto simp: Iterator_inc_def deref_def split: option.splits)
qed

theorem advancing_end_iterator_witness:
  "(2 :: 16 word) \<noteq> 0 \<and> Iterator_add (fst list_7) 2 List_end = Inl NullDereference \<and>
   list_inv list_7 \<and> size' (snd list_7) \<noteq> 0 \<and>
   Iterator_inc (fst list_7) (List_last (snd list_7)) = Inr List_end \<and>
   Iterator_inc (fst list_7) List_end = Inl NullDereference \<and>
   (\<exists>i'. Iterator_inc (fst list_7) (List_begin (snd list_7)) = Inr i')"
proof -
  have "size' (snd list_7) \<noteq> 0"
    by (simp add: list_7_eq)
  moreover have "node' (List_begin (snd list_7)) \<noteq> nullptr \<and>
      fmlookup (fst list_7) (node' (List_begin (snd list_7))) \<noteq> None"
    by (simp add: list_7_eq List_begin_def)
  ultimately show ?thesis
    using list_7_inv
      advancing_end_iterator [of "fst list_7" 2 "snd list_7" "List_begin (snd list_7)"]
    by simp
qed

text \<open>
  Claim C2, amended. On a well-formed list \<open>Resize\<close> returns without an error. When it
  returns true the size is the requested one. Growing appends copies of the fill value at
  the back and returns false only when \<open>detail::New\<close> has no memory; the list then holds
  what was appended so far. Shrinking always returns true and frees nodes at the front:
  the nodes and values that remain are the last \<open>new_size\<close> ones of the list before, not
  the first ones. In particular: a \<open>Resize\<close> of the empty list to 5 with fill value 9 that
  returns true gives size 5 and the values 9, 9, 9, 9, 9, and a following \<open>Resize\<close> to 2
  returns true with size 2; what remains are the last two nodes of the five, with the
  values 9, 9.
\<close>

theorem Resize_grows_back_shrinks_front:
  "(list_inv s \<longrightarrow>
      (\<exists>ok s'. Resize alloc n v s = Inr (ok, s') \<and> list_inv s' \<and>
         (ok \<longrightarrow> Size (snd s') = n) \<and>
         (\<not> ok \<longrightarrow> Size (snd s') < n \<and> detail_New alloc (fst s') = nullptr) \<and>
         (n \<le> Size (snd s) \<longrightarrow> ok) \<and>
         iterate (fst s') (List_begin (snd s')) =
           Some (Inr (if Size (snd s) \<le> n
                      then elements s @ replicate (unat (Size (snd s')) - unat (Size (snd s))) v
                      else drop (unat (Size (snd s)) - unat n) (elements s))))) \<and>
   (list_inv s \<longrightarrow> n \<le> Size (snd s) \<longrightarrow>
      (\<exists>s'. Resize alloc n v s = Inr (True, s') \<and> list_inv s' \<and> Size (snd s') = n \<and>
         nodes s' = drop (unat (Size (snd s)) - unat n) (nodes s) \<and>
         iterate (fst s') (List_begin (snd s')) =
           Some (Inr (drop (unat (Size (snd s)) - unat n) (elements s))))) \<and>
   (Resize alloc0 5 (9 :: int) (h, empty_List) = Inr (True, s5) \<longrightarrow>
      Size (snd s5) = 5 \<and>
      iterate (fst s5) (List_begin (snd s5)) = Some (Inr [9, 9, 9, 9, 9]) \<and>
      (\<exists>s2. Resize alloc' 2 w s5 = Inr (True, s2) \<and> Size (snd s2) = 2 \<and>
         nodes s2 = drop 3 (nodes s5) \<and>
         iterate (fst s2) (List_begin (snd s2)) = Some (Inr (drop 3 [9, 9, 9, 9, 9]))))"
proof (intro conjI)
  show "list_inv s \<longrightarrow>
      (\<exists>ok s'. Resize alloc n v s = Inr (ok, s') \<and> list_inv s' \<and>
         (ok \<longrightarrow> Size (snd s') = n) \<and>
         (\<not> ok \<longrightarrow> Size (snd s') < n \<and> detail_New alloc (fst s') = nullptr) \<and>
         (n \<le> Size (snd s) \<longrightarrow> ok) \<and>
         iterate (fst s') (List_begin (snd s')) =
           Some (Inr (if Size (snd s) \<le> n
                      then elements s @ replicate (unat (Size (snd s')) - unat (Size (snd s))) v
                      else drop (unat (Size (snd s)) - unat n) (elements s))))"
    by (rule impI) (erule Resize_list_inv)
  show "list_inv s \<longrightarrow> n \<le> Size (snd s) \<longrightarrow>
      (\<exists>s'. Resize alloc n v s = Inr (True, s') \<and> list_inv s' \<and> Size (snd s') = n \<and>
         nodes s' = drop (unat (Size (snd s)) - unat n) (nodes s) \<and>
         iterate (fst s') (List_begin (snd s')) =
           Some (Inr (drop (unat (Size (snd s)) - unat n) (elements s))))"
    by (intro impI) (erule (1) Resize_shrinks)
  show "Resize alloc0 5 (9 :: int) (h, empty_List) = Inr (True, s5) \<longrightarrow>
      Size (snd s5) = 5 \<and>
      iterate (fst s5) (List_begin (snd s5)) = Some (Inr [9, 9, 9, 9, 9]) \<and>
      (\<exists>s2. Resize alloc' 2 w s5 = Inr (True, s2) \<and> Size (snd s2) = 2 \<and>
         nodes s2 = drop 3 (nodes s5) \<and>
         iterate (fst s2) (List_begin (snd s2)) = Some (Inr (drop 3 [9, 9, 9, 9, 9])))"
    by (rule impI) (erule Resize_scenario_back)
qed

theorem Resize_grows_back_shrinks_front_witness:
  "list_inv list_12345 \<and> (2 :: 16 word) \<le> Size (snd list_12345) \<and>
   iterate (fst list_12345) (List_begin (snd list_12345)) = Some (Inr [1, 2, 3, 4, 5]) \<and>
   Resize no_memory 2 0 list_12345 = Inr (True, list_45) \<and>
   nodes list_45 = drop 3 (nodes list_12345) \<and>
   iterate (fst list_45) (List_begin (snd list_45)) = Some (Inr (drop 3 [1, 2, 3, 4, 5])) \<and>
   list_inv (fmempty :: int heap, empty_List) \<and>
   (case Resize (pool_alloc [1, 2, 3, 4, 5]) 5 9 (fmempty :: int heap, empty_List) of
      Inl e \<Rightarrow> False
    | Inr (ok, s5) \<Rightarrow> ok \<and> Size (snd s5) = 5 \<and>
        iterate (fst s5) (List_begin (snd s5)) = Some (Inr [9, 9, 9, 9, 9]) \<and>
        (case Resize no_memory 2 0 s5 of
           Inl e \<Rightarrow> False
         | Inr (ok2, s2) \<Rightarrow> ok2 \<and> Size (snd s2) = 2 \<and> nodes s2 = drop 3 (nodes s5) \<and>
             iterate (fst s2) (List_begin (snd s2)) = Some (Inr [9, 9])))"
proof -
  have inv0: "list_inv (fmempty :: int heap, empty_List)"
    using dll_empty_List by (rule dll_list_inv)
  have le: "(2 :: 16 word) \<le> Size (snd list_12345)"
    using list_12345_props(3) by simp
  have it: "iterate (fst list_12345) (List_begin (snd list_12345)) = Some (Inr [1, 2, 3, 4, 5])"
    using iterate_list_inv [OF list_12345_props(1)] by (simp add: list_12345_props)
  have d9: "drop 3 [9, 9, 9, 9, 9 :: int] = [9, 9]"
    by (simp add: numeral_eq_Suc)
  obtain s5 where run: "Resize (pool_alloc [1, 2, 3, 4, 5]) 5 9 (fmempty :: int heap, empty_List) = Inr (True, s5)"
    by (simp add: Resize_def PushBack_def Node_New_def detail_New_def pool_alloc_def
                  empty_List_def set_next_def set_previous_def deref_def)
  note inst = Resize_grows_back_shrinks_front
         [where ?alloc0.0 = "pool_alloc [1, 2, 3, 4, 5]" and h = "fmempty :: int heap" and ?s5.0 = s5
            and alloc' = no_memory and w = 0 and s = list_12345
            and alloc = no_memory and n = 2 and v = 0]
  from inst list_12345_props(1) le obtain s'
    where shrink: "Resize no_memory 2 0 list_12345 = Inr (True, s')"
      "nodes s' = drop (unat (Size (snd list_12345)) - unat (2 :: 16 word)) (nodes list_12345)"
      "iterate (fst s') (List_begin (snd s')) =
         Some (Inr (drop (unat (Size (snd list_12345)) - unat (2 :: 16 word)) (elements list_12345)))"
    by blast
  from shrink(1) have s': "s' = list_45"
    by (simp add: list_45_def)
  from shrink have "Resize no_memory 2 0 list_12345 = Inr (True, list_45) \<and>
      nodes list_45 = drop 3 (nodes list_12345) \<and>
      iterate (fst list_45) (List_begin (snd list_45)) = Some (Inr (drop 3 [1, 2, 3, 4, 5]))"
    unfolding s' by (simp add: list_12345_props)
  moreover from inst run
  have "Size (snd s5) = 5 \<and>
      iterate (fst s5) (List_begin (snd s5)) = Some (Inr [9, 9, 9, 9, 9]) \<and>
      (\<exists>s2. Resize no_memory 2 0 s5 = Inr (True, s2) \<and> Size (snd s2) = 2 \<and>
         nodes s2 = drop 3 (nodes s5) \<and>
         iterate (fst s2) (List_begin (snd s2)) = Some (Inr (drop 3 [9, 9, 9, 9, 9])))"
    by blast
  ultimately show ?thesis
    using inv0 le it list_12345_props(1) run by (auto simp: d9)
qed

text \<open>
  Claim C2 as stated says that the shrinking \<open>Resize\<close> from 5 to 2 retains the two front
  values of the list before. On the list 1, 2, 3, 4, 5 it retains 4, 5, which are not the
  first two values 1, 2.
\<close>

theorem Resize_keeps_back_not_front:
  "iterate (fst list_12345) (List_begin (snd list_12345)) = Some (Inr [1, 2, 3, 4, 5]) \<and>
   Size (snd list_12345) = 5 \<and>
   Resize no_memory 2 0 list_12345 = Inr (True, list_45) \<and>
   Size (snd list_45) = 2 \<and>
   iterate (fst list_45) (List_begin (snd list_45)) = Some (Inr [4, 5]) \<and>
   iterate (fst list_45) (List_begin (snd list_45)) \<noteq> Some (Inr (take 2 [1, 2, 3, 4, 5]))"
proof -
  have "iterate (fst list_12345) (List_begin (snd list_12345)) = Some (Inr (elements list_12345))"
    using list_12345_props(1) by (rule iterate_list_inv)
  moreover have "take 2 [1, 2, 3, 4, 5 :: int] = [1, 2]"
    by (simp add: numeral_eq_Suc)
  ultimately show ?thesis
    by (simp add: list_12345_props list_12345_to_2)
qed

text \<open>
  Claim C6. A sequence of \<open>PushBack\<close> calls on the empty list, each with its own allocator
  state, returns without an error; the walk from \<open>begin()\<close> to \<open>end()\<close> then yields the
  values of the calls that returned true, in the order of the calls, and the size is the
  number of these calls.
\<close>

theorem PushBack_seq_in_push_order:
  "\<exists>oks s'. PushBack_seq cs (h, empty_List) = Inr (oks, s') \<and> length oks = length cs \<and>
      list_inv s' \<and>
      iterate (fst s') (List_begin (snd s')) =
        Some (Inr (map (snd \<circ> snd) (filter fst (zip oks cs)))) \<and>
      unat (Size (snd s')) = length (filter (\<lambda>ok. ok) oks)"
proof -
  from PushBack_seq_dll [OF dll_empty_List, where h = h and cs = cs] obtain oks h' l' bs
    where run: "PushBack_seq cs (h, empty_List) = Inr (oks, h', l')" and inv: "dll h' l' bs"
      and len: "length oks = length cs" "length bs = length (filter (\<lambda>ok. ok) oks)"
      and v: "vals h' bs = map (snd \<circ> snd) (filter fst (zip oks cs))"
    by auto
  from inv have "unat (size' l') = length bs"
    by (simp add: dll_def)
  with run inv len v iterate_dll [OF inv] show ?thesis
    by (simp add: Size_def dll_list_inv)
qed

theorem PushBack_seq_in_push_order_witness:
  "PushBack_seq [(pool_alloc [1, 2], 4), (no_memory, 5), (pool_alloc [1, 2], 6)]
       (fmempty :: int heap, empty_List) \<noteq> Inl NullDereference \<and>
   (case PushBack_seq [(pool_alloc [1, 2], 4), (no_memory, 5), (pool_alloc [1, 2], 6)]
           (fmempty :: int heap, empty_List) of
      Inl e \<Rightarrow> False
    | Inr (oks, s') \<Rightarrow> oks = [True, False, True] \<and>
        iterate (fst s') (List_begin (snd s')) = Some (Inr [4, 6]) \<and> Size (snd s') = 2)"
proof -
  have run: "\<exists>s'. PushBack_seq [(pool_alloc [1, 2], 4), (no_memory, 5), (pool_alloc [1, 2], 6)]
       (fmempty :: int heap, empty_List) = Inr ([True, False, True], s') \<and> Size (snd s') = 2"
    by (simp add: PushBack_def Node_New_def detail_New_def pool_alloc_def no_memory_def
                  empty_List_def set_next_def set_previous_def deref_def Size_def)
  with PushBack_seq_in_push_order
         [where cs = "[(pool_alloc [1, 2], 4), (no_memory, 5), (pool_alloc [1, 2], 6)]"
            and h = "fmempty :: int heap"]
  show ?thesis
    by auto
qed

end
